theory Spec2Isabelle
  imports Complex_Main "HOL-Library.AList"
begin

section \<open>Python values used by \<^verbatim>\<open>scripts/generate_all_routes.py\<close>\<close>

text \<open>
  Exceptions are values: a computation returns \<open>py_error + 'a\<close>, with \<open>Inl\<close> for the raised
  exception. Only the exceptions that the statements of the script can raise are listed.
\<close>

datatype py_error =
    IndexError
  | KeyError
  | ZeroDivisionError
  | OverflowError
  | RequestException
  | JSONDecodeError
  | OSError

subsection \<open>Floats\<close>

text \<open>
  A finite Python \<^verbatim>\<open>float\<close> (IEEE binary64) is represented by the rational number it denotes;
  \<^verbatim>\<open>-0.0\<close> and \<^verbatim>\<open>0.0\<close>, which compare equal in Python, are both \<open>0\<close>.
  \<open>float_of_rat\<close> rounds a rational to the nearest binary64 value, ties to even, with the
  subnormal range below \<open>2 ^ -1022\<close>; it is the rounding that \<^verbatim>\<open>int / int\<close> and the
  string-to-float conversion inside \<^verbatim>\<open>round\<close> perform. \<^verbatim>\<open>int / int\<close> raises
  \<^verbatim>\<open>OverflowError\<close> when the rounded quotient reaches \<open>2 ^ 1024\<close>. \<^verbatim>\<open>round(x, ndigits)\<close>
  rounds the exact value of \<open>x\<close> to \<open>ndigits\<close> decimal places, ties to even, and converts
  the decimal back to a float.
\<close>

text \<open>\<^verbatim>\<open>int.bit_length\<close> for a non-negative integer.\<close>

function bit_length :: "int \<Rightarrow> int" where
  "bit_length n = (if n \<le> 0 then 0 else bit_length (n div 2) + 1)"
  by pat_completeness auto
termination
  by (relation "measure nat") auto

declare bit_length.simps [simp del]

definition pow2 :: "int \<Rightarrow> rat" where
  "pow2 e = (if 0 \<le> e then 2 ^ nat e else 1 / 2 ^ nat (- e))"

definition round_half_even :: "rat \<Rightarrow> int" where
  "round_half_even q =
     (let f = \<lfloor>q\<rfloor>; r = q - of_int f
      in if r < 1 / 2 then f
         else if 1 / 2 < r then f + 1
         else if even f then f else f + 1)"

text \<open>\<open>float_exponent q\<close> is \<open>\<lfloor>log\<^sub>2 \<bar>q\<bar>\<rfloor>\<close> for \<open>q \<noteq> 0\<close>.\<close>

definition float_exponent :: "rat \<Rightarrow> int" where
  "float_exponent q =
     (let a = \<bar>q\<bar>;
          e0 = bit_length (fst (quotient_of a)) - bit_length (snd (quotient_of a))
      in if pow2 e0 \<le> a then e0 else e0 - 1)"

definition float_of_rat :: "rat \<Rightarrow> rat" where
  "float_of_rat q =
     (if q = 0 then 0
      else let ulp = pow2 (max (float_exponent q) (- 1022) - 52)
           in of_int (round_half_even (q / ulp)) * ulp)"

definition py_truediv :: "int \<Rightarrow> int \<Rightarrow> py_error + rat" where
  "py_truediv a b =
     (if b = 0 then Inl ZeroDivisionError
      else let r = float_of_rat (of_int a / of_int b)
           in if 1024 \<le> float_exponent r then Inl OverflowError else Inr r)"

definition py_round :: "rat \<Rightarrow> nat \<Rightarrow> rat" where
  "py_round x ndigits = float_of_rat (of_int (round_half_even (x * 10 ^ ndigits)) / 10 ^ ndigits)"

subsection \<open>Ranges and slices\<close>

text \<open>
  \<^verbatim>\<open>range(start, stop, step)\<close> for non-negative arguments. The script only calls it with
  \<^verbatim>\<open>step = BATCH_SIZE = 10\<close>; for \<open>step = 0\<close>, where Python raises, the model has no elements.
\<close>

function py_range :: "nat \<Rightarrow> nat \<Rightarrow> nat \<Rightarrow> nat list" where
  "py_range start stop step =
     (if step = 0 then []
      else if start < stop then start # py_range (start + step) stop step
      else [])"
  by pat_completeness auto
termination
  by (relation "measure (\<lambda>(start, stop, step). stop - start)") auto

declare py_range.simps [simp del]

definition py_slice :: "'a list \<Rightarrow> nat \<Rightarrow> nat \<Rightarrow> 'a list" where
  "py_slice xs a b = take (b - a) (drop a xs)"

subsection \<open>Dictionaries\<close>

text \<open>
  A \<^verbatim>\<open>dict\<close> is an association list with distinct keys in insertion order:
  \<^verbatim>\<open>d[k] = v\<close> is \<^const>\<open>AList.update\<close> (an existing key keeps its place, a new key goes last),
  \<^verbatim>\<open>len(d)\<close> is \<^const>\<open>length\<close>, \<^verbatim>\<open>d.update(e)\<close> stores the items of \<open>e\<close> in their order.
\<close>

definition dict_update :: "('k \<times> 'v) list \<Rightarrow> ('k \<times> 'v) list \<Rightarrow> ('k \<times> 'v) list" where
  "dict_update d e = fold (\<lambda>(k, v). AList.update k v) e d"

section \<open>Data model\<close>

text \<open>
  A location is an object of \<^verbatim>\<open>locations.json\<close> with the keys \<^verbatim>\<open>id\<close>, \<^verbatim>\<open>nombre\<close>, \<^verbatim>\<open>latitud\<close> and
  \<^verbatim>\<open>longitud\<close>; the id is a string. The coordinates only go into the request parameters.
\<close>

record location =
  loc_id :: string
  nombre :: string
  latitud :: rat
  longitud :: rat

text \<open>
  One cell of the response grid. \<open>el_status\<close> is \<^verbatim>\<open>element.get("status")\<close>;
  \<open>distance_value\<close> is \<^verbatim>\<open>element["distance"]["value"]\<close> and \<open>duration_value\<close> is
  \<^verbatim>\<open>element["duration"]["value"]\<close>, \<open>None\<close> when a key on the path is missing. The service
  reports meters and seconds as integers. \<open>elements\<close>, \<open>rows\<close>, \<open>status\<close> and
  \<open>error_message\<close> are \<open>None\<close> when the response lacks the key.
\<close>

record element =
  el_status :: "string option"
  distance_value :: "int option"
  duration_value :: "int option"

record row =
  elements :: "element list option"

record api_data =
  status :: "string option"
  error_message :: "string option"
  rows :: "row list option"

record route_info =
  distance_km :: rat
  duration_seconds :: int

type_synonym routes = "(string \<times> route_info) list"

text \<open>The lines the script prints, one constructor per \<^verbatim>\<open>print\<close> statement or banner.\<close>

datatype event =
    Header
  | MissingKey
  | Found nat
  | TotalRoutes nat
  | Request nat nat nat nat nat
  | HttpError int
  | ApiError "string option" string
  | Warning string string "string option"
  | Got nat
  | Failed
  | Summary nat nat nat
  | RoutesFailed nat
  | RequestsNotInstalled

section \<open>The bulk query\<close>

text \<open>
  What \<^verbatim>\<open>requests.get\<close> does for one call: it raises, or it returns a response with
  \<^verbatim>\<open>response.ok\<close>, \<^verbatim>\<open>response.status_code\<close> and the result of \<^verbatim>\<open>response.json()\<close>
  (\<open>None\<close> when the body does not decode). The request parameters (the coordinates joined
  with \<open>|\<close>, the driving mode, the key) are determined by the two batches, so a service is a
  function of the batches.
\<close>

record http_response =
  ok :: bool
  status_code :: int
  json :: "api_data option"

datatype http_outcome = Raises | Responds http_response

type_synonym service = "location list \<Rightarrow> location list \<Rightarrow> http_outcome"

definition get_distance_matrix ::
  "service \<Rightarrow> location list \<Rightarrow> location list \<Rightarrow> py_error + api_data option \<times> event list" where
  "get_distance_matrix svc origins destinations =
     (case svc origins destinations of
        Raises \<Rightarrow> Inl RequestException
      | Responds response \<Rightarrow>
          if \<not> ok response then Inr (None, [HttpError (status_code response)])
          else (case json response of
                  None \<Rightarrow> Inl JSONDecodeError
                | Some data \<Rightarrow>
                    if status data \<noteq> Some ''OK''
                    then Inr (None, [ApiError (status data)
                                      (case error_message data of None \<Rightarrow> [] | Some m \<Rightarrow> m)])
                    else Inr (Some data, [])))"

section \<open>Aggregation of one response\<close>

definition cache_key :: "location \<Rightarrow> location \<Rightarrow> string" where
  "cache_key origin destination = loc_id origin @ ''_'' @ loc_id destination"

text \<open>The body of the inner loop of \<^verbatim>\<open>process_matrix_response\<close>, after \<^verbatim>\<open>destinations[j]\<close>.\<close>

definition process_element ::
  "location \<Rightarrow> location \<Rightarrow> element \<Rightarrow> routes \<times> event list \<Rightarrow> py_error + routes \<times> event list" where
  "process_element origin destination element st =
     (if loc_id origin = loc_id destination then Inr st
      else if el_status element = Some ''OK'' then
        (case distance_value element of
           None \<Rightarrow> Inl KeyError
         | Some distance_m \<Rightarrow>
            (case duration_value element of
               None \<Rightarrow> Inl KeyError
             | Some duration_s \<Rightarrow>
                (case py_truediv distance_m 1000 of
                   Inl e \<Rightarrow> Inl e
                 | Inr km \<Rightarrow>
                     Inr (AList.update (cache_key origin destination)
                            \<lparr>distance_km = py_round km 1, duration_seconds = duration_s\<rparr> (fst st),
                          snd st))))
      else Inr (fst st,
                snd st @ [Warning (take 20 (nombre origin)) (take 20 (nombre destination))
                            (el_status element)]))"

text \<open>\<^verbatim>\<open>data.get("rows", [])\<close> and \<^verbatim>\<open>row.get("elements", [])\<close>.\<close>

definition rows_of :: "api_data \<Rightarrow> row list" where
  "rows_of data = (case rows data of None \<Rightarrow> [] | Some rs \<Rightarrow> rs)"

definition elements_of :: "row \<Rightarrow> element list" where
  "elements_of r = (case elements r of None \<Rightarrow> [] | Some es \<Rightarrow> es)"

fun process_elements ::
  "location \<Rightarrow> location list \<Rightarrow> nat \<Rightarrow> element list \<Rightarrow> routes \<times> event list
     \<Rightarrow> py_error + routes \<times> event list" where
  "process_elements origin destinations j [] st = Inr st"
| "process_elements origin destinations j (element # rest) st =
     (if length destinations \<le> j then Inl IndexError
      else (case process_element origin (destinations ! j) element st of
              Inl e \<Rightarrow> Inl e
            | Inr st' \<Rightarrow> process_elements origin destinations (Suc j) rest st'))"

fun process_rows ::
  "location list \<Rightarrow> location list \<Rightarrow> nat \<Rightarrow> row list \<Rightarrow> routes \<times> event list
     \<Rightarrow> py_error + routes \<times> event list" where
  "process_rows origins destinations i [] st = Inr st"
| "process_rows origins destinations i (r # rest) st =
     (if length origins \<le> i then Inl IndexError
      else (case process_elements (origins ! i) destinations 0 (elements_of r) st of
              Inl e \<Rightarrow> Inl e
            | Inr st' \<Rightarrow> process_rows origins destinations (Suc i) rest st'))"

definition process_matrix_response ::
  "api_data \<Rightarrow> location list \<Rightarrow> location list \<Rightarrow> py_error + routes \<times> event list" where
  "process_matrix_response data origins destinations =
     process_rows origins destinations 0 (rows_of data) ([], [])"

section \<open>The run\<close>

text \<open>
  A sub-query is one iteration of the nested loops of \<^verbatim>\<open>main\<close>: the two index ranges and the
  two slices of \<^verbatim>\<open>locations\<close> taken from them.
\<close>

record sub_query =
  i_start :: nat
  i_end :: nat
  j_start :: nat
  j_end :: nat
  batch_origins :: "location list"
  batch_destinations :: "location list"

definition make_sub_query :: "location list \<Rightarrow> nat \<Rightarrow> nat \<Rightarrow> nat \<Rightarrow> sub_query" where
  "make_sub_query locations B i j =
     (let n = length locations;
          ie = min (i + B) n;
          je = min (j + B) n
      in \<lparr>i_start = i, i_end = ie, j_start = j, j_end = je,
          batch_origins = py_slice locations i ie,
          batch_destinations = py_slice locations j je\<rparr>)"

text \<open>The sub-queries in the order the nested loops visit them.\<close>

definition sub_queries :: "location list \<Rightarrow> nat \<Rightarrow> sub_query list" where
  "sub_queries locations B =
     concat (map (\<lambda>i. map (\<lambda>j. make_sub_query locations B i j)
                          (py_range 0 (length locations) B))
                 (py_range 0 (length locations) B))"

definition BATCH_SIZE :: nat where
  "BATCH_SIZE = 10"

record run_state =
  cache :: routes
  request_count :: nat
  out :: "event list"

text \<open>
  The world answers the \<open>k\<close>-th call (\<open>k\<close> counted from 0) as \<open>world k\<close> says.
  The body of the inner loop of \<^verbatim>\<open>main\<close>; \<^verbatim>\<open>time.sleep\<close> has no effect on the state.
\<close>

definition request_step :: "(nat \<Rightarrow> service) \<Rightarrow> sub_query \<Rightarrow> run_state \<Rightarrow> py_error + run_state" where
  "request_step world q st =
     (let out1 = out st @ [Request (request_count st + 1) (i_start q + 1) (i_end q)
                             (j_start q + 1) (j_end q)]
      in case get_distance_matrix (world (request_count st)) (batch_origins q) (batch_destinations q) of
           Inl e \<Rightarrow> Inl e
         | Inr (None, evs) \<Rightarrow>
             Inr \<lparr>cache = cache st, request_count = request_count st + 1,
                  out = out1 @ evs @ [Failed]\<rparr>
         | Inr (Some data, evs) \<Rightarrow>
             (case process_matrix_response data (batch_origins q) (batch_destinations q) of
                Inl e \<Rightarrow> Inl e
              | Inr (routes, warnings) \<Rightarrow>
                  Inr \<lparr>cache = dict_update (cache st) routes,
                       request_count = request_count st + 1,
                       out = out1 @ evs @ warnings @ [Got (length routes)]\<rparr>))"

fun inner_loop ::
  "(nat \<Rightarrow> service) \<Rightarrow> location list \<Rightarrow> nat \<Rightarrow> nat \<Rightarrow> nat list \<Rightarrow> run_state \<Rightarrow> py_error + run_state" where
  "inner_loop world locations B i [] st = Inr st"
| "inner_loop world locations B i (j # js) st =
     (case request_step world (make_sub_query locations B i j) st of
        Inl e \<Rightarrow> Inl e
      | Inr st' \<Rightarrow> inner_loop world locations B i js st')"

fun outer_loop ::
  "(nat \<Rightarrow> service) \<Rightarrow> location list \<Rightarrow> nat \<Rightarrow> nat list \<Rightarrow> run_state \<Rightarrow> py_error + run_state" where
  "outer_loop world locations B [] st = Inr st"
| "outer_loop world locations B (i # is) st =
     (case inner_loop world locations B i (py_range 0 (length locations) B) st of
        Inl e \<Rightarrow> Inl e
      | Inr st' \<Rightarrow> outer_loop world locations B is st')"

text \<open>The nested loops visit the sub-queries one after the other, until an exception.\<close>

fun run_sub_queries :: "(nat \<Rightarrow> service) \<Rightarrow> sub_query list \<Rightarrow> run_state \<Rightarrow> py_error + run_state" where
  "run_sub_queries world [] st = Inr st"
| "run_sub_queries world (q # qs) st =
     (case request_step world q st of
        Inl e \<Rightarrow> Inl e
      | Inr st' \<Rightarrow> run_sub_queries world qs st')"

text \<open>
  How a run ends: \<^verbatim>\<open>sys.exit(code)\<close>, an exception that nothing catches (the interpreter
  then exits with status 1), or the end of \<^verbatim>\<open>main\<close> with the cache written to the file.
\<close>

datatype outcome =
    SysExit nat "event list"
  | Uncaught py_error
  | Completed routes "event list"

fun exit_status :: "outcome \<Rightarrow> nat" where
  "exit_status (SysExit code evs) = code"
| "exit_status (Uncaught e) = 1"
| "exit_status (Completed saved evs) = 0"

text \<open>What the run has written to \<^verbatim>\<open>routes_cache.json\<close>, if it got that far.\<close>

fun saved_routes :: "outcome \<Rightarrow> routes option" where
  "saved_routes (Completed saved evs) = Some saved"
| "saved_routes (SysExit code evs) = None"
| "saved_routes (Uncaught e) = None"

text \<open>
  The two files of the run. \<open>locations_json\<close> is what \<^verbatim>\<open>open(LOCATIONS_FILE)\<close> and \<^verbatim>\<open>json.load\<close>
  give: the exception they raise (\<^verbatim>\<open>OSError\<close> for a file that is missing or unreadable,
  \<^verbatim>\<open>JSONDecodeError\<close> for one that does not parse) or the list of locations. \<open>cache_write\<close> is
  the exception raised when \<^verbatim>\<open>routes_cache.json\<close> is opened for writing and dumped, if any.
\<close>

record files =
  locations_json :: "py_error + location list"
  cache_write :: "py_error option"

definition load_locations :: "files \<Rightarrow> py_error + location list" where
  "load_locations fs = locations_json fs"

text \<open>
  \<open>main key fs world\<close>: \<open>key\<close> is the module constant \<^verbatim>\<open>GOOGLE_API_KEY\<close>
  (\<^verbatim>\<open>os.environ.get("GOOGLE_API_KEY", "")\<close>). Nothing in \<^verbatim>\<open>main\<close> catches an exception: one raised
  by \<^verbatim>\<open>load_locations\<close>, inside the loops or while the cache is written ends the run.
\<close>

definition main :: "string \<Rightarrow> files \<Rightarrow> (nat \<Rightarrow> service) \<Rightarrow> outcome" where
  "main key fs world =
     (if key = [] then SysExit 1 [Header, MissingKey]
      else case load_locations fs of
             Inl e \<Rightarrow> Uncaught e
           | Inr locations \<Rightarrow>
               let n = length locations;
                   st0 = \<lparr>cache = [], request_count = 0,
                          out = [Header, Found n, TotalRoutes (n * (n - 1))]\<rparr>
               in case outer_loop world locations BATCH_SIZE (py_range 0 n BATCH_SIZE) st0 of
                    Inl e \<Rightarrow> Uncaught e
                  | Inr st \<Rightarrow>
                      (case cache_write fs of
                         Some e \<Rightarrow> Uncaught e
                       | None \<Rightarrow>
                           Completed (cache st)
                             (out st @ [Summary (request_count st) (length (cache st)) (n * (n - 1))]
                                @ (if length (cache st) < n * (n - 1)
                                   then [RoutesFailed (n * (n - 1) - length (cache st))] else []))))"

text \<open>
  The script: the import guard at the top of the module, then \<^verbatim>\<open>main()\<close>.
  \<open>requests_installed\<close> says whether \<^verbatim>\<open>import requests\<close> succeeds; the environment variable
  is \<open>None\<close> when unset.
\<close>

definition script :: "bool \<Rightarrow> string option \<Rightarrow> files \<Rightarrow> (nat \<Rightarrow> service) \<Rightarrow> outcome" where
  "script requests_installed env_key fs world =
     (if \<not> requests_installed then SysExit 1 [RequestsNotInstalled]
      else main (case env_key of None \<Rightarrow> [] | Some k \<Rightarrow> k) fs world)"

section \<open>The grid of chunks\<close>

text \<open>
  \<open>ceil_div n b\<close> is \<open>\<lceil>n / b\<rceil>\<close>. The \<open>k\<close>-th chunk of \<open>[0, n)\<close> is \<open>[k * b, min (k * b + b) n)\<close>;
  \<open>bounds\<close> reads the two index ranges of a sub-query and \<open>index_pairs\<close> lists the index
  pairs \<open>(i, j)\<close> that it asks for.
\<close>

definition ceil_div :: "nat \<Rightarrow> nat \<Rightarrow> nat" where
  "ceil_div n b = (n + b - 1) div b"

definition chunk_bounds :: "nat \<Rightarrow> nat \<Rightarrow> (nat \<times> nat) list" where
  "chunk_bounds n b = map (\<lambda>k. (k * b, min (k * b + b) n)) [0..<ceil_div n b]"

definition bounds :: "sub_query \<Rightarrow> (nat \<times> nat) \<times> (nat \<times> nat)" where
  "bounds q = ((i_start q, i_end q), (j_start q, j_end q))"

definition index_pairs :: "sub_query \<Rightarrow> (nat \<times> nat) list" where
  "index_pairs q = List.product [i_start q..<i_end q] [j_start q..<j_end q]"

section \<open>Shape of a response\<close>

text \<open>
  The response has at most as many rows as there are origins and every row has at most as
  many elements as there are destinations.
\<close>

definition shape_ok :: "api_data \<Rightarrow> location list \<Rightarrow> location list \<Rightarrow> bool" where
  "shape_ok data origins destinations \<longleftrightarrow>
     length (rows_of data) \<le> length origins
     \<and> list_all (\<lambda>r. length (elements_of r) \<le> length destinations) (rows_of data)"

text \<open>
  An element that does not make the aggregation raise by itself: when its status is OK it has
  a distance and a duration and the distance divides without overflow.
\<close>

definition payload_ok :: "element \<Rightarrow> bool" where
  "payload_ok e =
     (if el_status e = Some ''OK''
      then (case distance_value e of
              None \<Rightarrow> False
            | Some m \<Rightarrow> duration_value e \<noteq> None
                         \<and> (case py_truediv m 1000 of Inl err \<Rightarrow> False | Inr km \<Rightarrow> True))
      else True)"

definition payload_all_ok :: "api_data \<Rightarrow> bool" where
  "payload_all_ok data = list_all (\<lambda>r. list_all payload_ok (elements_of r)) (rows_of data)"

section \<open>Complete answers\<close>




text \<open>The keys of all ordered pairs of locations with different ids, in registry order.\<close>

definition expected_keys :: "location list \<Rightarrow> string list" where
  "expected_keys locations =
     map (\<lambda>(a, b). cache_key a b)
       (filter (\<lambda>(a, b). loc_id a \<noteq> loc_id b) (List.product locations locations))"


section \<open>Scenario data\<close>

text \<open>A registry of \<open>n\<close> locations with the distinct ids \<open>a\<close>, \<open>aa\<close>, \<open>aaa\<close>, ...\<close>

definition loc :: "string \<Rightarrow> location" where
  "loc s = \<lparr>loc_id = s, nombre = s, latitud = 0, longitud = 0\<rparr>"

definition sample_locations :: "nat \<Rightarrow> location list" where
  "sample_locations n = map (\<lambda>k. loc (replicate (Suc k) CHR ''a'')) [0..<n]"

text \<open>A grid in which every cell is the element \<open>e\<close>, shaped as the request asks.\<close>

definition ok_element :: "int \<Rightarrow> int \<Rightarrow> element" where
  "ok_element m d = \<lparr>el_status = Some ''OK'', distance_value = Some m, duration_value = Some d\<rparr>"

definition grid_data :: "element \<Rightarrow> location list \<Rightarrow> location list \<Rightarrow> api_data" where
  "grid_data e origins destinations =
     \<lparr>status = Some ''OK'', error_message = None,
      rows = Some (map (\<lambda>_. \<lparr>elements = Some (map (\<lambda>_. e) destinations)\<rparr>) origins)\<rparr>"

definition grid_response :: "element \<Rightarrow> service" where
  "grid_response e origins destinations =
     Responds \<lparr>ok = True, status_code = 200, json = Some (grid_data e origins destinations)\<rparr>"

text \<open>The locations file holds \<open>locations\<close> and the cache file can be written.\<close>

definition good_files :: "location list \<Rightarrow> files" where
  "good_files locations = \<lparr>locations_json = Inr locations, cache_write = None\<rparr>"

text \<open>A 2 x 2 response with a failed element on a self pair and one on a proper pair.\<close>

definition status_element :: "string \<Rightarrow> element" where
  "status_element s = \<lparr>el_status = Some s, distance_value = None, duration_value = None\<rparr>"

definition mixed_data :: api_data where
  "mixed_data =
     \<lparr>status = Some ''OK'', error_message = None,
      rows = Some [\<lparr>elements = Some [status_element ''NOT_FOUND'', ok_element 12500 900]\<rparr>,
                   \<lparr>elements = Some [status_element ''ZERO_RESULTS'', ok_element 0 0]\<rparr>]\<rparr>"

text \<open>
  Worlds: one that answers every call with a full grid of the element \<open>e\<close>, one in which
  the first call (\<open>k = 0\<close>) fails inside \<^verbatim>\<open>requests.get\<close> (a timeout, a refused connection),
  one whose first call is answered with HTTP status 500, and one that always answers
  \<open>mixed_data\<close>.
\<close>

definition steady_world :: "element \<Rightarrow> nat \<Rightarrow> service" where
  "steady_world e k = grid_response e"

definition raising_world :: "element \<Rightarrow> nat \<Rightarrow> service" where
  "raising_world e k = (if k = 0 then (\<lambda>origins destinations. Raises) else grid_response e)"

definition http_500_world :: "element \<Rightarrow> nat \<Rightarrow> service" where
  "http_500_world e k =
     (if k = 0 then (\<lambda>origins destinations. Responds \<lparr>ok = False, status_code = 500, json = None\<rparr>)
      else grid_response e)"

definition mixed_world :: "nat \<Rightarrow> service" where
  "mixed_world k origins destinations = Responds \<lparr>ok = True, status_code = 200, json = Some mixed_data\<rparr>"

text \<open>
  Three locations in batches of two: four sub-queries, every call answered with a full grid.
  \<open>grid3_state k\<close> is the state after the first \<open>k\<close> of them.
\<close>

definition grid3_queries :: "sub_query list" where
  "grid3_queries = sub_queries (sample_locations 3) 2"

definition km_12_5 :: route_info where
  "km_12_5 = \<lparr>distance_km = 25 / 2, duration_seconds = 900\<rparr>"

definition grid3_state :: "nat \<Rightarrow> run_state" where
  "grid3_state k =
     \<lparr>cache = take (2 * k) [(''a_aa'', km_12_5), (''aa_a'', km_12_5), (''a_aaa'', km_12_5),
                            (''aa_aaa'', km_12_5), (''aaa_a'', km_12_5), (''aaa_aa'', km_12_5)],
      request_count = k,
      out = take (2 * k) [Request 1 1 2 1 2, Got 2, Request 2 1 2 3 3, Got 2,
                          Request 3 3 3 1 2, Got 2, Request 4 3 3 3 3, Got 0]\<rparr>"

text \<open>
  A 2 x 2 response whose proper pairs report 1150 m and 1250 m: \<^verbatim>\<open>1150 / 1000\<close> is just
  below 1.15 and rounds down to 1.1, \<^verbatim>\<open>1250 / 1000\<close> is the tie 1.25 and rounds to the
  even 1.2.
\<close>

definition rounding_data :: api_data where
  "rounding_data =
     \<lparr>status = Some ''OK'', error_message = None,
      rows = Some [\<lparr>elements = Some [status_element ''NOT_FOUND'', ok_element 1150 60]\<rparr>,
                   \<lparr>elements = Some [ok_element 1250 75, ok_element 0 0]\<rparr>]\<rparr>"

section \<open>Floats at work\<close>

text \<open>
  \<^verbatim>\<open>round(12500 / 1000, 1)\<close> is 12.5. \<^verbatim>\<open>1150 / 1000\<close> is the float just below 1.15, so
  \<^verbatim>\<open>round(1150 / 1000, 1)\<close> is the float 1.1; \<^verbatim>\<open>1250 / 1000\<close> is exactly 1.25, a tie, and
  rounds to the even 1.2.
\<close>

lemma py_round_examples:
  "py_truediv 12500 1000 = Inr (25 / 2)"
  "py_round (25 / 2) 1 = 25 / 2"
  "py_truediv 1150 1000 = Inr (2589569785738035 / 2251799813685248)"
  "py_round (2589569785738035 / 2251799813685248) 1 = 2476979795053773 / 2251799813685248"
  "py_truediv 1250 1000 = Inr (5 / 4)"
  "py_round (5 / 4) 1 = 5404319552844595 / 4503599627370496"
  by code_simp+

section \<open>Accuracy of float rounding\<close>

text \<open>
  \<open>float_of_rat\<close> has the relative error \<open>2\<^sup>-\<^sup>5\<^sup>3\<close> in the normal range, and rounding to
  an integer has the absolute error \<open>1 / 2\<close>; hence \<^verbatim>\<open>round(m / 1000, 1)\<close> is a float next
  to a tenth \<open>k / 10\<close> that is a nearest tenth of \<open>m / 1000\<close>.
\<close>

lemma pow2_powi: "pow2 e = (2 :: rat) powi e"
  by (simp add: pow2_def power_int_def inverse_eq_divide power_one_over)

lemma round_half_even_error: "\<bar>of_int (round_half_even x) - x\<bar> \<le> 1 / 2"
proof -
  define f where "f = \<lfloor>x\<rfloor>"
  define r where "r = x - of_int f"
  have r: "0 \<le> r" "r < 1" unfolding r_def f_def by linarith+
  have x: "x = of_int f + r" by (simp add: r_def)
  have rhe: "round_half_even x = (if r < 1 / 2 then f else if 1 / 2 < r then f + 1
                                  else if even f then f else f + 1)"
    by (simp add: round_half_even_def Let_def f_def r_def)
  have d: "of_int (round_half_even x) - x = of_int (round_half_even x - f) - r"
    by (simp add: r_def)
  show ?thesis
  proof (cases "r < 1 / 2")
    case True
    then have "round_half_even x - f = 0" using rhe by simp
    then show ?thesis unfolding d using r True by simp
  next
    case False
    show ?thesis
    proof (cases "1 / 2 < r")
      case True
      then have "round_half_even x - f = 1" using rhe False by simp
      then show ?thesis unfolding d using r True by simp
    next
      case h: False
      then have half: "r = 1 / 2" using False by simp
      have "round_half_even x - f = 0 \<or> round_half_even x - f = 1"
        using rhe False h by simp
      then show ?thesis unfolding d using half by auto
    qed
  qed
qed


lemma bit_length_pos: "0 < n \<Longrightarrow> bit_length n = bit_length (n div 2) + 1"
  by (subst bit_length.simps) simp

lemma bit_length_nonpos: "n \<le> 0 \<Longrightarrow> bit_length n = 0"
  by (subst bit_length.simps) simp

lemma bit_length_bounds:
  "0 < n \<Longrightarrow> 1 \<le> bit_length n \<and> 2 ^ nat (bit_length n - 1) \<le> n \<and> n < 2 ^ nat (bit_length n)"
proof (induction n rule: bit_length.induct)
  case (1 n)
  show ?case
  proof (cases "n div 2 = 0")
    case True
    then have "n = 1" using 1(2) by presburger
    then show ?thesis by (simp add: bit_length_pos bit_length_nonpos)
  next
    case False
    then have pos: "0 < n div 2" using 1(2) by presburger
    have np: "\<not> n \<le> 0" using 1(2) by simp
    note ih = 1(1)[OF np pos]
    let ?b = "bit_length (n div 2)"
    have b1: "1 \<le> ?b" and lo: "2 ^ nat (?b - 1) \<le> n div 2" and hi: "n div 2 < 2 ^ nat ?b"
      using ih by simp_all
    have b: "bit_length n = ?b + 1" using 1(2) by (rule bit_length_pos)
    have n1: "nat (?b + 1 - 1) = Suc (nat (?b - 1))" using b1 by simp
    have n2: "nat (?b + 1) = Suc (nat ?b)" using b1 by simp
    have d: "2 * (n div 2) \<le> n" "n < 2 * (n div 2) + 2" by presburger+
    have "(2::int) ^ nat (?b + 1 - 1) \<le> n"
      unfolding n1 power_Suc using lo d(1) by linarith
    moreover have "n < (2::int) ^ nat (?b + 1)"
      unfolding n2 power_Suc using hi d(2) by linarith
    ultimately show ?thesis unfolding b using b1 by simp
  qed
qed

lemma bit_length_bounds_rat:
  assumes "0 < n"
  shows "(2 :: rat) powi (bit_length n - 1) \<le> of_int n" "of_int n < (2 :: rat) powi (bit_length n)"
proof -
  note b = bit_length_bounds[OF assms]
  have "(2 :: rat) powi (bit_length n - 1) = of_int (2 ^ nat (bit_length n - 1))"
    using b by (simp add: power_int_nonneg_exp)
  also have "\<dots> \<le> of_int n" using b by (subst of_int_le_iff) simp
  finally show "(2 :: rat) powi (bit_length n - 1) \<le> of_int n" .
  have "(of_int n :: rat) < of_int (2 ^ nat (bit_length n))"
    using b by (subst of_int_less_iff) simp
  also have "\<dots> = (2 :: rat) powi (bit_length n)"
    using b by (simp add: power_int_nonneg_exp)
  finally show "of_int n < (2 :: rat) powi (bit_length n)" .
qed

lemma float_exponent_bounds:
  assumes "q \<noteq> 0"
  shows "(2 :: rat) powi (float_exponent q) \<le> \<bar>q\<bar> \<and> \<bar>q\<bar> < 2 powi (float_exponent q + 1)"
proof -
  define a where "a = \<bar>q\<bar>"
  have a: "0 < a" using assms by (simp add: a_def)
  obtain p d where pd: "quotient_of a = (p, d)" by (cases "quotient_of a")
  have d: "0 < d" using quotient_of_denom_pos[OF pd] .
  have ad: "a = of_int p / of_int d" using quotient_of_div[OF pd] .
  have p: "0 < p" using a d unfolding ad by (simp add: zero_less_divide_iff)
  define P where "P = bit_length p"
  define D where "D = bit_length d"
  note bp = bit_length_bounds_rat[OF p, folded P_def]
  note bd = bit_length_bounds_rat[OF d, folded D_def]
  have dpos: "(0 :: rat) < of_int d" "(0 :: rat) < of_int p" using d p by simp_all
  have upper: "a < 2 powi (P - D + 1)"
  proof -
    have "a \<le> of_int p / 2 powi (D - 1)"
      unfolding ad using bd(1) dpos by (intro divide_left_mono) (simp_all add: mult_pos_pos)
    also have "\<dots> < 2 powi P / 2 powi (D - 1)"
      using bp(2) by (intro divide_strict_right_mono) simp_all
    also have "\<dots> = 2 powi (P - (D - 1))"
      by (simp add: power_int_diff)
    finally show ?thesis by (simp add: algebra_simps)
  qed
  have lower: "2 powi (P - D - 1) \<le> a"
  proof -
    have "(2 :: rat) powi (P - D - 1) = 2 powi (P - 1 - D)" by (simp add: algebra_simps)
    also have "\<dots> = 2 powi (P - 1) / 2 powi D" by (simp add: power_int_diff)
    also have "\<dots> \<le> 2 powi (P - 1) / of_int d"
      using bd(2) dpos by (intro divide_left_mono) (simp_all add: mult_pos_pos)
    also have "\<dots> \<le> of_int p / of_int d"
      using bp(1) dpos by (intro divide_right_mono) simp_all
    finally show ?thesis unfolding ad .
  qed
  have fe: "float_exponent q = (if 2 powi (P - D) \<le> a then P - D else P - D - 1)"
    by (simp add: float_exponent_def Let_def a_def[symmetric] pd P_def D_def pow2_powi)
  show ?thesis
  proof (cases "2 powi (P - D) \<le> a")
    case True
    then show ?thesis using upper by (simp add: fe a_def)
  next
    case False
    then show ?thesis using lower by (simp add: fe a_def)
  qed
qed

lemma float_of_rat_error:
  assumes n: "(2 :: rat) powi (- 1022) \<le> \<bar>q\<bar>"
  shows "\<bar>float_of_rat q - q\<bar> \<le> \<bar>q\<bar> / 2 ^ 53"
proof -
  have "(0 :: rat) < 2 powi (- 1022)" by simp
  then have q: "q \<noteq> 0" using n by auto
  define e where "e = float_exponent q"
  note eb = float_exponent_bounds[OF q, folded e_def]
  have e: "- 1022 \<le> e"
  proof (rule ccontr)
    assume "\<not> - 1022 \<le> e"
    then have "e + 1 \<le> - 1022" by simp
    then have "(2 :: rat) powi (e + 1) \<le> 2 powi (- 1022)"
      by (intro power_int_increasing) simp_all
    then show False using eb n by linarith
  qed
  define ulp where "ulp = (2 :: rat) powi (e - 52)"
  have ulp: "0 < ulp" by (simp add: ulp_def)
  have fl: "float_of_rat q = of_int (round_half_even (q / ulp)) * ulp"
    using q e by (simp add: float_of_rat_def Let_def e_def[symmetric] pow2_powi ulp_def max_def)
  have "float_of_rat q - q = (of_int (round_half_even (q / ulp)) - q / ulp) * ulp"
    using ulp by (simp add: fl algebra_simps)
  then have "\<bar>float_of_rat q - q\<bar> = \<bar>of_int (round_half_even (q / ulp)) - q / ulp\<bar> * ulp"
    using ulp by (simp add: abs_mult)
  also have "\<dots> \<le> (1 / 2) * ulp"
    using round_half_even_error[of "q / ulp"] ulp by (intro mult_right_mono) simp_all
  also have "\<dots> = 2 powi e / 2 ^ 53"
    by (simp add: ulp_def power_int_diff)
  also have "\<dots> \<le> \<bar>q\<bar> / 2 ^ 53"
    using eb by (intro divide_right_mono) simp_all
  finally show ?thesis .
qed

lemma tiny_powi: "(2 :: rat) powi (- 1022) \<le> 1 / 1024"
proof -
  have "(2 :: rat) powi (- 1022) \<le> 2 powi (- 10)"
    by (intro power_int_increasing) simp_all
  then show ?thesis by simp
qed

lemma float_of_rat_error_ratio:
  assumes "0 < d" "d \<le> 1024"
  shows "\<bar>float_of_rat (of_int n / of_int d) - of_int n / of_int d\<bar>
           \<le> \<bar>of_int n / of_int d\<bar> / 2 ^ 53"
proof (cases "n = 0")
  case True
  then show ?thesis by (simp add: float_of_rat_def)
next
  case False
  then have "1 \<le> \<bar>n\<bar>" by arith
  then have "(of_int 1 :: rat) \<le> of_int \<bar>n\<bar>" by (simp only: of_int_le_iff)
  then have "(1 :: rat) \<le> \<bar>of_int n\<bar>" by simp
  moreover have "(0 :: rat) < of_int d" "(of_int d :: rat) \<le> 1024" using assms by simp_all
  ultimately have "(1 :: rat) / 1024 \<le> \<bar>of_int n\<bar> / of_int d"
    by (intro frac_le) simp_all
  then have "(2 :: rat) powi (- 1022) \<le> \<bar>of_int n / of_int d\<bar>"
    using tiny_powi assms(1) by (simp add: abs_divide)
  then show ?thesis by (rule float_of_rat_error)
qed

lemma py_truediv_1000: "py_truediv m 1000 = Inr km \<Longrightarrow> km = float_of_rat (of_int m / 1000)"
  by (auto simp: py_truediv_def Let_def split: if_splits)

lemma round_km:
  assumes "py_truediv m 1000 = Inr km"
  shows "\<exists>k :: int. py_round km 1 = float_of_rat (of_int k / 10)
          \<and> \<bar>py_round km 1 - of_int k / 10\<bar> \<le> \<bar>of_int k / 10\<bar> / 2 ^ 53
          \<and> \<bar>of_int k / 10 - of_int m / 1000 :: rat\<bar> \<le> 1 / 20 + \<bar>of_int m / 1000\<bar> / 2 ^ 53"
proof -
  define k where "k = round_half_even (km * 10)"
  have km: "km = float_of_rat (of_int m / 1000)" using assms by (rule py_truediv_1000)
  have r: "py_round km 1 = float_of_rat (of_int k / 10)"
    by (simp add: py_round_def k_def)
  have A: "\<bar>km - of_int m / 1000\<bar> \<le> \<bar>of_int m / 1000\<bar> / 2 ^ 53"
    unfolding km using float_of_rat_error_ratio[of 1000 m] by simp
  have "\<bar>of_int k - km * 10\<bar> \<le> 1 / 2"
    unfolding k_def by (rule round_half_even_error)
  moreover have "\<bar>of_int k / 10 - km\<bar> = \<bar>of_int k - km * 10\<bar> / 10"
  proof -
    have "of_int k / 10 - km = (of_int k - km * 10) / 10" by simp
    then show ?thesis by (simp only: abs_divide)
  qed
  ultimately have B: "\<bar>of_int k / 10 - km\<bar> \<le> 1 / 20" by linarith
  have C: "\<bar>py_round km 1 - of_int k / 10\<bar> \<le> \<bar>of_int k / 10\<bar> / 2 ^ 53"
    unfolding r using float_of_rat_error_ratio[of 10 k] by simp
  have "\<bar>of_int k / 10 - of_int m / 1000\<bar> \<le> \<bar>of_int k / 10 - km\<bar> + \<bar>km - of_int m / 1000\<bar>"
    by linarith
  then have "\<bar>of_int k / 10 - of_int m / 1000 :: rat\<bar> \<le> 1 / 20 + \<bar>of_int m / 1000\<bar> / 2 ^ 53"
    using A B by linarith
  then show ?thesis using r C by blast
qed

lemma float_exponent_zero: "float_exponent 0 = - 2"
  by code_simp

lemma py_truediv_1000_total:
  assumes m: "\<bar>m\<bar> \<le> 2 ^ 1000"
  shows "\<exists>km. py_truediv m 1000 = Inr km"
proof -
  define q :: rat where "q = of_int m / of_int 1000"
  define r where "r = float_of_rat q"
  define B :: rat where "B = 2 powi 1000"
  have B: "0 < B" by (simp add: B_def)
  have "float_exponent r < 1024"
  proof (cases "r = 0")
    case True
    then show ?thesis by (simp add: float_exponent_zero)
  next
    case False
    then have lo: "2 powi (float_exponent r) \<le> \<bar>r\<bar>"
      using float_exponent_bounds[of r] by simp
    have "(of_int \<bar>m\<bar> :: rat) \<le> of_int (2 ^ 1000)"
      using m by (simp only: of_int_le_iff)
    then have "\<bar>of_int m :: rat\<bar> \<le> B"
      by (simp add: B_def)
    then have q: "\<bar>q\<bar> \<le> B"
      unfolding q_def by (simp add: abs_divide)
    have "\<bar>r - q\<bar> \<le> \<bar>q\<bar> / 2 ^ 53"
      unfolding r_def q_def by (rule float_of_rat_error_ratio) simp_all
    moreover have "\<bar>q\<bar> / 2 ^ 53 \<le> \<bar>q\<bar>"
      by (simp add: divide_le_eq)
    ultimately have "\<bar>r\<bar> \<le> 2 * \<bar>q\<bar>" by linarith
    then have "\<bar>r\<bar> \<le> 2 * B" using q by linarith
    also have "2 * B = 2 powi 1001"
      unfolding B_def by (simp add: power_int_add[of 2 1 1000, simplified])
    finally have hi: "(2 :: rat) powi (float_exponent r) \<le> 2 powi 1001"
      using lo by linarith
    have "float_exponent r \<le> 1001"
    proof (rule ccontr)
      assume "\<not> float_exponent r \<le> 1001"
      then have "1002 \<le> float_exponent r" by simp
      then have "(2 :: rat) powi 1002 \<le> 2 powi (float_exponent r)"
        by (intro power_int_increasing) simp_all
      moreover have "(2 :: rat) powi 1001 < 2 powi 1002"
        by (intro power_int_strict_increasing) simp_all
      ultimately show False using hi by linarith
    qed
    then show ?thesis by simp
  qed
  then show ?thesis
    by (simp add: py_truediv_def Let_def r_def q_def)
qed

section \<open>The batch partitioner\<close>

lemma sub_queries_mem:
  assumes "q \<in> set (sub_queries locations B)"
  shows "\<exists>i j. q = make_sub_query locations B i j"
  using assms by (auto simp: sub_queries_def)

lemma make_sub_query_sizes:
  "length (batch_origins (make_sub_query locations B i j)) \<le> B"
  "length (batch_destinations (make_sub_query locations B i j)) \<le> B"
  by (simp_all add: make_sub_query_def Let_def py_slice_def)

text \<open>
  C6. Every sub-query that the nested loops of \<^verbatim>\<open>main\<close> issue (with \<^verbatim>\<open>BATCH_SIZE = 10\<close>) has at
  most 10 origins and at most 10 destinations, hence at most 100 elements.
\<close>

theorem sub_query_bounds:
  assumes "q \<in> set (sub_queries locations BATCH_SIZE)"
  shows "length (batch_origins q) \<le> 10 \<and> length (batch_destinations q) \<le> 10
         \<and> length (batch_origins q) * length (batch_destinations q) \<le> 100"
proof -
  obtain i j where q: "q = make_sub_query locations BATCH_SIZE i j"
    using sub_queries_mem[OF assms] by blast
  have a: "length (batch_origins q) \<le> 10" and b: "length (batch_destinations q) \<le> 10"
    using make_sub_query_sizes[of locations BATCH_SIZE i j] by (simp_all add: q BATCH_SIZE_def)
  have "length (batch_origins q) * length (batch_destinations q) \<le> 10 * 10"
    using a b by (rule mult_le_mono)
  then show ?thesis using a b by simp
qed

theorem sub_query_bounds_witness:
  "make_sub_query (sample_locations 16) BATCH_SIZE 10 0 \<in> set (sub_queries (sample_locations 16) BATCH_SIZE)
   \<and> length (batch_origins (make_sub_query (sample_locations 16) BATCH_SIZE 10 0)) \<le> 10
   \<and> length (batch_destinations (make_sub_query (sample_locations 16) BATCH_SIZE 10 0)) \<le> 10
   \<and> length (batch_origins (make_sub_query (sample_locations 16) BATCH_SIZE 10 0))
       * length (batch_destinations (make_sub_query (sample_locations 16) BATCH_SIZE 10 0)) \<le> 100"
proof -
  have r: "py_range 0 16 10 = [0, 10]"
    by (simp add: py_range.simps)
  have m: "make_sub_query (sample_locations 16) BATCH_SIZE 10 0
             \<in> set (sub_queries (sample_locations 16) BATCH_SIZE)"
    by (simp add: sub_queries_def sample_locations_def BATCH_SIZE_def r)
  show ?thesis using m sub_query_bounds[OF m] by simp
qed

section \<open>The loops as one pass over the sub-queries\<close>

lemma inner_loop_run:
  "inner_loop world locations B i js st
     = run_sub_queries world (map (make_sub_query locations B i) js) st"
  by (induction js arbitrary: st) (auto split: sum.splits)

lemma run_sub_queries_append:
  "run_sub_queries world (qs @ qs') st
     = (case run_sub_queries world qs st of Inl e \<Rightarrow> Inl e | Inr st' \<Rightarrow> run_sub_queries world qs' st')"
  by (induction qs arbitrary: st) (auto split: sum.splits)

lemma outer_loop_run_gen:
  "outer_loop world locations B is st
     = run_sub_queries world
         (concat (map (\<lambda>i. map (make_sub_query locations B i) (py_range 0 (length locations) B)) is)) st"
  by (induction "is" arbitrary: st) (auto simp: inner_loop_run run_sub_queries_append split: sum.splits)

lemma outer_loop_run:
  "outer_loop world locations B (py_range 0 (length locations) B) st
     = run_sub_queries world (sub_queries locations B) st"
  by (simp add: outer_loop_run_gen sub_queries_def)

section \<open>Dictionary updates\<close>

lemma length_update_ge: "length al \<le> length (AList.update k v al)"
  by (induction al) auto

lemma keys_update_ge: "fst ` set al \<subseteq> fst ` set (AList.update k v al)"
  by (auto simp: dom_update)

lemma dict_update_Cons: "dict_update d ((k, v) # e) = dict_update (AList.update k v d) e"
  by (simp add: dict_update_def)

lemma dict_update_mono:
  "fst ` set d \<subseteq> fst ` set (dict_update d e) \<and> length d \<le> length (dict_update d e)"
proof (induction e arbitrary: d)
  case Nil
  show ?case by (simp add: dict_update_def)
next
  case (Cons kv e)
  obtain k v where kv: "kv = (k, v)" by (cases kv)
  show ?case
    unfolding kv dict_update_Cons
    using Cons.IH[of "AList.update k v d"] length_update_ge[of d k v] keys_update_ge[of d k v]
    by (meson order_trans)
qed



section \<open>One request\<close>

lemma request_step_cases:
  assumes "request_step world q st = Inr st'"
  shows "cache st' = cache st
       \<or> (\<exists>data routes warnings.
            process_matrix_response data (batch_origins q) (batch_destinations q) = Inr (routes, warnings)
            \<and> cache st' = dict_update (cache st) routes)"
proof (cases "get_distance_matrix (world (request_count st)) (batch_origins q) (batch_destinations q)")
  case (Inl e)
  then show ?thesis using assms by (simp add: request_step_def)
next
  case (Inr res)
  obtain d evs where res: "res = (d, evs)" by (cases res)
  show ?thesis
  proof (cases d)
    case None
    then show ?thesis using assms Inr res by (auto simp: request_step_def)
  next
    case (Some data)
    show ?thesis
    proof (cases "process_matrix_response data (batch_origins q) (batch_destinations q)")
      case (Inl e)
      then show ?thesis using assms Inr res Some by (simp add: request_step_def)
    next
      case r: (Inr pr)
      obtain routes warnings where pr: "pr = (routes, warnings)" by (cases pr)
      have "cache st' = dict_update (cache st) routes"
        using assms Inr res Some r pr by (auto simp: request_step_def)
      then show ?thesis using r pr by blast
    qed
  qed
qed

lemma request_step_mono:
  assumes "request_step world q st = Inr st'"
  shows "fst ` set (cache st) \<subseteq> fst ` set (cache st') \<and> length (cache st) \<le> length (cache st')"
  using request_step_cases[OF assms] dict_update_mono by (metis order_refl)

lemma run_sub_queries_mono:
  "run_sub_queries world qs st = Inr st'
   \<Longrightarrow> fst ` set (cache st) \<subseteq> fst ` set (cache st') \<and> length (cache st) \<le> length (cache st')"
proof (induction qs arbitrary: st)
  case Nil
  then show ?case by simp
next
  case (Cons q qs)
  then obtain st1 where s1: "request_step world q st = Inr st1"
    and s2: "run_sub_queries world qs st1 = Inr st'"
    by (auto split: sum.splits)
  show ?case using request_step_mono[OF s1] Cons.IH[OF s2] by (meson order_trans)
qed

text \<open>
  C9. The cache only grows: when a request completes, every key that was in the cache is still
  in it and its size has not decreased, and the same holds after any further sub-queries that
  the loops go on to process.
\<close>

theorem cache_grows:
  assumes "request_step world q st = Inr st1"
      and "run_sub_queries world qs st1 = Inr st2"
  shows "fst ` set (cache st) \<subseteq> fst ` set (cache st1) \<and> length (cache st) \<le> length (cache st1)
       \<and> fst ` set (cache st1) \<subseteq> fst ` set (cache st2) \<and> length (cache st1) \<le> length (cache st2)"
  using request_step_mono[OF assms(1)] run_sub_queries_mono[OF assms(2)] by simp

theorem cache_grows_witness:
  "request_step (steady_world (ok_element 12500 900)) (grid3_queries ! 1) (grid3_state 1)
     = Inr (grid3_state 2)
   \<and> run_sub_queries (steady_world (ok_element 12500 900)) (drop 2 grid3_queries) (grid3_state 2)
     = Inr (grid3_state 4)
   \<and> length grid3_queries = 4
   \<and> fst ` set (cache (grid3_state 1)) = {''a_aa'', ''aa_a''}
   \<and> fst ` set (cache (grid3_state 1)) \<subseteq> fst ` set (cache (grid3_state 2))
   \<and> fst ` set (cache (grid3_state 2)) \<subseteq> fst ` set (cache (grid3_state 4))
   \<and> length (cache (grid3_state 1)) = 2 \<and> length (cache (grid3_state 2)) = 4
   \<and> length (cache (grid3_state 4)) = 6"
proof -
  have a: "request_step (steady_world (ok_element 12500 900)) (grid3_queries ! 1) (grid3_state 1)
             = Inr (grid3_state 2)"
    by code_simp
  have b: "run_sub_queries (steady_world (ok_element 12500 900)) (drop 2 grid3_queries) (grid3_state 2)
             = Inr (grid3_state 4)"
    by code_simp
  have c: "length grid3_queries = 4" by code_simp
  have d: "fst ` set (cache (grid3_state 1)) = {''a_aa'', ''aa_a''}"
    by (simp add: grid3_state_def)
  have e: "length (cache (grid3_state 1)) = 2 \<and> length (cache (grid3_state 2)) = 4
           \<and> length (cache (grid3_state 4)) = 6"
    by (simp add: grid3_state_def)
  show ?thesis
    using a b c d e cache_grows[OF a b] by simp
qed

section \<open>Invariants of the aggregation loops\<close>

text \<open>
  A property \<open>P t\<close> of the state after \<open>t\<close> iterations holds at the end of a loop when it holds
  at the start and every iteration that completes carries it one step further.
\<close>

lemma process_elements_rule:
  assumes "process_elements origin destinations j es st = Inr st'"
      and "P 0 st"
      and "\<And>t s s'. t < length es \<Longrightarrow> j + t < length destinations \<Longrightarrow> P t s
             \<Longrightarrow> process_element origin (destinations ! (j + t)) (es ! t) s = Inr s'
             \<Longrightarrow> P (Suc t) s'"
  shows "P (length es) st'"
  using assms
proof (induction es arbitrary: j st P)
  case Nil
  then show ?case by simp
next
  case (Cons e es)
  from Cons.prems(1) have j: "j < length destinations"
    by (auto split: if_splits)
  from Cons.prems(1) j obtain s1 where
    s1: "process_element origin (destinations ! j) e st = Inr s1"
    and rest: "process_elements origin destinations (Suc j) es s1 = Inr st'"
    by (auto split: sum.splits)
  have p1: "P (Suc 0) s1"
    using Cons.prems(3)[of 0 st s1] j Cons.prems(2) s1 by simp
  have "(\<lambda>t. P (Suc t)) (length es) st'"
  proof (rule Cons.IH[OF rest, of "\<lambda>t. P (Suc t)"])
    show "P (Suc 0) s1" by (rule p1)
  next
    fix t s s'
    assume "t < length es" "Suc j + t < length destinations" "P (Suc t) s"
      "process_element origin (destinations ! (Suc j + t)) (es ! t) s = Inr s'"
    then show "P (Suc (Suc t)) s'"
      using Cons.prems(3)[of "Suc t" s s'] by simp
  qed
  then show ?case by simp
qed

lemma process_rows_rule:
  assumes "process_rows origins destinations i rs st = Inr st'"
      and "P 0 st"
      and "\<And>t s s'. t < length rs \<Longrightarrow> i + t < length origins \<Longrightarrow> P t s
             \<Longrightarrow> process_elements (origins ! (i + t)) destinations 0 (elements_of (rs ! t)) s = Inr s'
             \<Longrightarrow> P (Suc t) s'"
  shows "P (length rs) st'"
  using assms
proof (induction rs arbitrary: i st P)
  case Nil
  then show ?case by simp
next
  case (Cons r rs)
  from Cons.prems(1) have i: "i < length origins"
    by (auto split: if_splits)
  from Cons.prems(1) i obtain s1 where
    s1: "process_elements (origins ! i) destinations 0 (elements_of r) st = Inr s1"
    and rest: "process_rows origins destinations (Suc i) rs s1 = Inr st'"
    by (auto split: sum.splits)
  have p1: "P (Suc 0) s1"
    using Cons.prems(3)[of 0 st s1] i Cons.prems(2) s1 by simp
  have "(\<lambda>t. P (Suc t)) (length rs) st'"
  proof (rule Cons.IH[OF rest, of "\<lambda>t. P (Suc t)"])
    show "P (Suc 0) s1" by (rule p1)
  next
    fix t s s'
    assume "t < length rs" "Suc i + t < length origins" "P (Suc t) s"
      "process_elements (origins ! (Suc i + t)) destinations 0 (elements_of (rs ! t)) s = Inr s'"
    then show "P (Suc (Suc t)) s'"
      using Cons.prems(3)[of "Suc t" s s'] by simp
  qed
  then show ?case by simp
qed

text \<open>An invariant of the single steps is an invariant of the whole aggregation.\<close>

lemma process_matrix_response_invariant:
  assumes run: "process_matrix_response data origins destinations = Inr st'"
      and init: "Q ([], [])"
      and step: "\<And>i j s s'. i < length (rows_of data) \<Longrightarrow> i < length origins
             \<Longrightarrow> j < length (elements_of (rows_of data ! i)) \<Longrightarrow> j < length destinations
             \<Longrightarrow> Q s
             \<Longrightarrow> process_element (origins ! i) (destinations ! j) (elements_of (rows_of data ! i) ! j) s = Inr s'
             \<Longrightarrow> Q s'"
  shows "Q st'"
proof -
  have "(\<lambda>t. Q) (length (rows_of data)) st'"
  proof (rule process_rows_rule[OF run[unfolded process_matrix_response_def], of "\<lambda>t. Q"])
    show "Q ([], [])" by (rule init)
  next
    fix t s s'
    assume t: "t < length (rows_of data)" "0 + t < length origins" and q: "Q s"
      and pe: "process_elements (origins ! (0 + t)) destinations 0 (elements_of (rows_of data ! t)) s = Inr s'"
    have "(\<lambda>u. Q) (length (elements_of (rows_of data ! t))) s'"
    proof (rule process_elements_rule[OF pe, of "\<lambda>u. Q"])
      show "Q s" by (rule q)
    next
      fix u s1 s2
      assume "u < length (elements_of (rows_of data ! t))" "0 + u < length destinations" "Q s1"
        "process_element (origins ! (0 + t)) (destinations ! (0 + u)) (elements_of (rows_of data ! t) ! u) s1 = Inr s2"
      then show "Q s2" using step[of t u s1 s2] t by simp
    qed
    then show "Q s'" .
  qed
  then show ?thesis .
qed

lemma process_element_distinct:
  assumes "process_element origin destination e s = Inr s'" "distinct (map fst (fst s))"
  shows "distinct (map fst (fst s'))"
  using assms
  by (auto simp: process_element_def distinct_update split: if_splits option.splits sum.splits)

lemma process_matrix_response_distinct:
  assumes "process_matrix_response data origins destinations = Inr (routes, warnings)"
  shows "distinct (map fst routes)"
proof -
  have "distinct (map fst (fst (routes, warnings)))"
    by (rule process_matrix_response_invariant[OF assms, of "\<lambda>s. distinct (map fst (fst s))"])
       (auto intro: process_element_distinct)
  then show ?thesis by simp
qed

section \<open>Merging the routes of a response\<close>

lemma map_of_dict_update_other:
  "k \<notin> fst ` set e \<Longrightarrow> map_of (dict_update d e) k = map_of d k"
proof (induction e arbitrary: d)
  case Nil
  show ?case by (simp add: dict_update_def)
next
  case (Cons kv e)
  obtain k' v' where kv: "kv = (k', v')" by (cases kv)
  show ?case using Cons unfolding kv dict_update_Cons by (simp add: update_conv')
qed

lemma map_of_dict_update_same:
  "distinct (map fst e) \<Longrightarrow> (k, v) \<in> set e \<Longrightarrow> map_of (dict_update d e) k = Some v"
proof (induction e arbitrary: d)
  case Nil
  then show ?case by simp
next
  case (Cons kv e)
  obtain k' v' where kv: "kv = (k', v')" by (cases kv)
  show ?case
  proof (cases "(k, v) = (k', v')")
    case True
    then have "k \<notin> fst ` set e" using Cons.prems(1) kv by auto
    then show ?thesis
      unfolding kv dict_update_Cons using True by (simp add: map_of_dict_update_other update_conv')
  next
    case False
    then have "(k, v) \<in> set e" using Cons.prems(2) kv by auto
    then show ?thesis unfolding kv dict_update_Cons using Cons.IH Cons.prems(1) by simp
  qed
qed

lemma dict_update_triv:
  "(\<And>k v. (k, v) \<in> set e \<Longrightarrow> map_of c k = Some v) \<Longrightarrow> dict_update c e = c"
proof (induction e)
  case Nil
  show ?case by (simp add: dict_update_def)
next
  case (Cons kv e)
  obtain k v where kv: "kv = (k, v)" by (cases kv)
  have "AList.update k v c = c" using Cons.prems[of k v] kv by (simp add: update_triv)
  then show ?case unfolding kv dict_update_Cons using Cons.IH Cons.prems by simp
qed

lemma dict_update_idem:
  assumes "distinct (map fst e)"
  shows "dict_update (dict_update d e) e = dict_update d e"
  by (rule dict_update_triv) (rule map_of_dict_update_same[OF assms])

text \<open>
  C7. Merging the routes aggregated from one response into the cache a second time leaves
  the cache exactly as the first merge left it.
\<close>

theorem aggregation_idempotent:
  assumes "process_matrix_response data origins destinations = Inr (routes, warnings)"
  shows "dict_update (dict_update cache0 routes) routes = dict_update cache0 routes"
  by (rule dict_update_idem) (rule process_matrix_response_distinct[OF assms])

theorem aggregation_idempotent_witness:
  "process_matrix_response (grid_data (ok_element 12500 900) (sample_locations 2) (sample_locations 2))
      (sample_locations 2) (sample_locations 2)
     = Inr ([(''a_aa'', \<lparr>distance_km = 25 / 2, duration_seconds = 900\<rparr>),
             (''aa_a'', \<lparr>distance_km = 25 / 2, duration_seconds = 900\<rparr>)], [])
   \<and> dict_update (dict_update [(''aa_a'', \<lparr>distance_km = 3, duration_seconds = 1\<rparr>)]
          [(''a_aa'', \<lparr>distance_km = 25 / 2, duration_seconds = 900\<rparr>),
           (''aa_a'', \<lparr>distance_km = 25 / 2, duration_seconds = 900\<rparr>)])
        [(''a_aa'', \<lparr>distance_km = 25 / 2, duration_seconds = 900\<rparr>),
         (''aa_a'', \<lparr>distance_km = 25 / 2, duration_seconds = 900\<rparr>)]
     = dict_update [(''aa_a'', \<lparr>distance_km = 3, duration_seconds = 1\<rparr>)]
          [(''a_aa'', \<lparr>distance_km = 25 / 2, duration_seconds = 900\<rparr>),
           (''aa_a'', \<lparr>distance_km = 25 / 2, duration_seconds = 900\<rparr>)]"
proof -
  have a: "process_matrix_response (grid_data (ok_element 12500 900) (sample_locations 2) (sample_locations 2))
      (sample_locations 2) (sample_locations 2)
     = Inr ([(''a_aa'', \<lparr>distance_km = 25 / 2, duration_seconds = 900\<rparr>),
             (''aa_a'', \<lparr>distance_km = 25 / 2, duration_seconds = 900\<rparr>)], [])"
    by code_simp
  show ?thesis
    using a aggregation_idempotent[OF a, of "[(''aa_a'', \<lparr>distance_km = 3, duration_seconds = 1\<rparr>)]"]
    by simp
qed

section \<open>What one element contributes\<close>

lemma set_update_subset: "set (AList.update k v al) \<subseteq> insert (k, v) (set al)"
  by (induction al) auto

lemma process_element_self:
  "loc_id origin = loc_id destination \<Longrightarrow> process_element origin destination e s = Inr s"
  by (simp add: process_element_def)

lemma process_element_cases:
  assumes "process_element origin destination e s = Inr s'"
  shows "(loc_id origin = loc_id destination \<and> s' = s)
       \<or> (loc_id origin \<noteq> loc_id destination \<and> el_status e = Some ''OK''
           \<and> (\<exists>m d km. distance_value e = Some m \<and> duration_value e = Some d
                 \<and> py_truediv m 1000 = Inr km
                 \<and> s' = (AList.update (cache_key origin destination)
                            \<lparr>distance_km = py_round km 1, duration_seconds = d\<rparr> (fst s), snd s)))
       \<or> (loc_id origin \<noteq> loc_id destination \<and> el_status e \<noteq> Some ''OK''
           \<and> s' = (fst s, snd s @ [Warning (take 20 (nombre origin)) (take 20 (nombre destination))
                                     (el_status e)]))"
  using assms
  by (auto simp: process_element_def split: if_splits option.splits sum.splits)

text \<open>
  C5. A pair whose origin and destination have the same id is skipped whatever the element
  says: the state (routes and printed warnings) is unchanged. Hence every route and every
  warning that aggregation produces belongs to a position whose two ids differ.
\<close>

theorem self_pairs_skipped:
  "(loc_id origin = loc_id destination \<longrightarrow> process_element origin destination e s = Inr s)
   \<and> (process_matrix_response data origins destinations = Inr (routes, warnings) \<longrightarrow>
        (\<forall>(k, v) \<in> set routes.
            \<exists>i j. i < length origins \<and> j < length destinations
                 \<and> loc_id (origins ! i) \<noteq> loc_id (destinations ! j)
                 \<and> k = cache_key (origins ! i) (destinations ! j))
      \<and> (\<forall>w \<in> set warnings.
            \<exists>i j. i < length origins \<and> j < length destinations
                 \<and> loc_id (origins ! i) \<noteq> loc_id (destinations ! j)
                 \<and> w = Warning (take 20 (nombre (origins ! i))) (take 20 (nombre (destinations ! j)))
                                (el_status (elements_of (rows_of data ! i) ! j))))"
proof (intro conjI impI)
  assume "loc_id origin = loc_id destination"
  then show "process_element origin destination e s = Inr s"
    by (rule process_element_self)
next
  assume run: "process_matrix_response data origins destinations = Inr (routes, warnings)"
  define A where "A = (\<lambda>k. \<exists>i j. i < length origins \<and> j < length destinations
                 \<and> loc_id (origins ! i) \<noteq> loc_id (destinations ! j)
                 \<and> k = cache_key (origins ! i) (destinations ! j))"
  define B where "B = (\<lambda>w. \<exists>i j. i < length origins \<and> j < length destinations
                 \<and> loc_id (origins ! i) \<noteq> loc_id (destinations ! j)
                 \<and> w = Warning (take 20 (nombre (origins ! i))) (take 20 (nombre (destinations ! j)))
                                (el_status (elements_of (rows_of data ! i) ! j)))"
  define Q where "Q = (\<lambda>s :: routes \<times> event list.
                         (\<forall>(k, v) \<in> set (fst s). A k) \<and> (\<forall>w \<in> set (snd s). B w))"
  have "Q (routes, warnings)"
  proof (rule process_matrix_response_invariant[OF run, of Q])
    show "Q ([], [])" by (simp add: Q_def)
  next
    fix i j s s'
    assume i: "i < length origins" and j: "j < length destinations" and q: "Q s"
      and step: "process_element (origins ! i) (destinations ! j) (elements_of (rows_of data ! i) ! j) s = Inr s'"
    from process_element_cases[OF step] show "Q s'"
    proof (elim disjE conjE exE)
      assume "s' = s"
      then show ?thesis using q by simp
    next
      fix m d km
      assume ne: "loc_id (origins ! i) \<noteq> loc_id (destinations ! j)"
        and s': "s' = (AList.update (cache_key (origins ! i) (destinations ! j))
                         \<lparr>distance_km = py_round km 1, duration_seconds = d\<rparr> (fst s), snd s)"
      have "A (cache_key (origins ! i) (destinations ! j))"
        unfolding A_def using i j ne by blast
      then show ?thesis
        using q set_update_subset[of "cache_key (origins ! i) (destinations ! j)"
                 "\<lparr>distance_km = py_round km 1, duration_seconds = d\<rparr>" "fst s"]
        unfolding Q_def s' by auto
    next
      assume ne: "loc_id (origins ! i) \<noteq> loc_id (destinations ! j)"
        and s': "s' = (fst s, snd s @ [Warning (take 20 (nombre (origins ! i)))
                                          (take 20 (nombre (destinations ! j)))
                                          (el_status (elements_of (rows_of data ! i) ! j))])"
      have "B (Warning (take 20 (nombre (origins ! i))) (take 20 (nombre (destinations ! j)))
                 (el_status (elements_of (rows_of data ! i) ! j)))"
        unfolding B_def using i j ne by blast
      then show ?thesis using q unfolding Q_def s' by auto
    qed
  qed
  then show "(\<forall>(k, v) \<in> set routes.
            \<exists>i j. i < length origins \<and> j < length destinations
                 \<and> loc_id (origins ! i) \<noteq> loc_id (destinations ! j)
                 \<and> k = cache_key (origins ! i) (destinations ! j))"
    and "(\<forall>w \<in> set warnings.
            \<exists>i j. i < length origins \<and> j < length destinations
                 \<and> loc_id (origins ! i) \<noteq> loc_id (destinations ! j)
                 \<and> w = Warning (take 20 (nombre (origins ! i))) (take 20 (nombre (destinations ! j)))
                                (el_status (elements_of (rows_of data ! i) ! j)))"
    unfolding Q_def A_def B_def by simp_all
qed

theorem self_pairs_skipped_witness:
  "loc_id (loc ''a'') = loc_id (loc ''a'')
   \<and> process_element (loc ''a'') (loc ''a'') (status_element ''NOT_FOUND'') ([], []) = Inr ([], [])
   \<and> process_matrix_response mixed_data (sample_locations 2) (sample_locations 2)
       = Inr ([(''a_aa'', \<lparr>distance_km = 25 / 2, duration_seconds = 900\<rparr>)],
              [Warning ''aa'' ''a'' (Some ''ZERO_RESULTS'')])
   \<and> (\<exists>i j. i < length (sample_locations 2) \<and> j < length (sample_locations 2)
          \<and> loc_id (sample_locations 2 ! i) \<noteq> loc_id (sample_locations 2 ! j)
          \<and> ''a_aa'' = cache_key (sample_locations 2 ! i) (sample_locations 2 ! j))"
proof -
  have a: "loc_id (loc ''a'') = loc_id (loc ''a'')" by simp
  have b: "process_matrix_response mixed_data (sample_locations 2) (sample_locations 2)
       = Inr ([(''a_aa'', \<lparr>distance_km = 25 / 2, duration_seconds = 900\<rparr>)],
              [Warning ''aa'' ''a'' (Some ''ZERO_RESULTS'')])"
    by code_simp
  show ?thesis
    using a b
      self_pairs_skipped[of "loc ''a''" "loc ''a''" "status_element ''NOT_FOUND''" "([], [])"
        mixed_data "sample_locations 2" "sample_locations 2"
        "[(''a_aa'', \<lparr>distance_km = 25 / 2, duration_seconds = 900\<rparr>)]"
        "[Warning ''aa'' ''a'' (Some ''ZERO_RESULTS'')]"]
    by simp
qed

section \<open>Routes written for the elements with status OK\<close>

lemma process_element_keys:
  assumes "process_element origin destination e s = Inr s'"
  shows "fst ` set (fst s) \<subseteq> fst ` set (fst s')"
    and "loc_id origin \<noteq> loc_id destination \<Longrightarrow> el_status e = Some ''OK''
         \<Longrightarrow> cache_key origin destination \<in> fst ` set (fst s')"
proof -
  from process_element_cases[OF assms]
  show "fst ` set (fst s) \<subseteq> fst ` set (fst s')"
  proof (elim disjE conjE exE)
    fix m d km
    assume "s' = (AList.update (cache_key origin destination)
                    \<lparr>distance_km = py_round km 1, duration_seconds = d\<rparr> (fst s), snd s)"
    then show ?thesis by (simp add: keys_update_ge)
  qed simp_all
  from process_element_cases[OF assms]
  show "loc_id origin \<noteq> loc_id destination \<Longrightarrow> el_status e = Some ''OK''
         \<Longrightarrow> cache_key origin destination \<in> fst ` set (fst s')"
    by (auto simp: dom_update)
qed

lemma process_elements_keys:
  assumes run: "process_elements origin destinations 0 es st = Inr st'"
  shows "fst ` set (fst st) \<subseteq> fst ` set (fst st')
       \<and> (\<forall>u < length es. loc_id origin \<noteq> loc_id (destinations ! u) \<and> el_status (es ! u) = Some ''OK''
             \<longrightarrow> cache_key origin (destinations ! u) \<in> fst ` set (fst st'))"
proof -
  define P where "P = (\<lambda>t (s :: routes \<times> event list).
      fst ` set (fst st) \<subseteq> fst ` set (fst s)
      \<and> (\<forall>u < t. loc_id origin \<noteq> loc_id (destinations ! u) \<and> el_status (es ! u) = Some ''OK''
             \<longrightarrow> cache_key origin (destinations ! u) \<in> fst ` set (fst s)))"
  have "P (length es) st'"
  proof (rule process_elements_rule[OF run, of P])
    show "P 0 st" by (simp add: P_def)
  next
    fix t s s'
    assume p: "P t s"
      and step: "process_element origin (destinations ! (0 + t)) (es ! t) s = Inr s'"
    note k = process_element_keys[OF step]
    show "P (Suc t) s'"
      unfolding P_def
    proof (intro conjI allI impI)
      show "fst ` set (fst st) \<subseteq> fst ` set (fst s')"
        using p k(1) unfolding P_def by blast
    next
      fix u
      assume u: "u < Suc t"
        and c: "loc_id origin \<noteq> loc_id (destinations ! u) \<and> el_status (es ! u) = Some ''OK''"
      show "cache_key origin (destinations ! u) \<in> fst ` set (fst s')"
      proof (cases "u = t")
        case True
        then show ?thesis using k(2) c by simp
      next
        case False
        then have "u < t" using u by simp
        then have "cache_key origin (destinations ! u) \<in> fst ` set (fst s)"
          using p c unfolding P_def by blast
        then show ?thesis using k(1) by blast
      qed
    qed
  qed
  then show ?thesis unfolding P_def .
qed

lemma process_rows_keys:
  assumes run: "process_rows origins destinations 0 rs st = Inr st'"
  shows "\<forall>t < length rs. \<forall>u < length (elements_of (rs ! t)).
           loc_id (origins ! t) \<noteq> loc_id (destinations ! u)
           \<and> el_status (elements_of (rs ! t) ! u) = Some ''OK''
           \<longrightarrow> cache_key (origins ! t) (destinations ! u) \<in> fst ` set (fst st')"
proof -
  define C where "C = (\<lambda>t u. loc_id (origins ! t) \<noteq> loc_id (destinations ! u)
           \<and> el_status (elements_of (rs ! t) ! u) = Some ''OK'')"
  define P where "P = (\<lambda>n (s :: routes \<times> event list).
      \<forall>t < n. \<forall>u < length (elements_of (rs ! t)).
         C t u \<longrightarrow> cache_key (origins ! t) (destinations ! u) \<in> fst ` set (fst s))"
  have "P (length rs) st'"
  proof (rule process_rows_rule[OF run, of P])
    show "P 0 st" by (simp add: P_def)
  next
    fix n s s'
    assume p: "P n s"
      and step: "process_elements (origins ! (0 + n)) destinations 0 (elements_of (rs ! n)) s = Inr s'"
    have k: "fst ` set (fst s) \<subseteq> fst ` set (fst s')"
      and new: "\<And>u. u < length (elements_of (rs ! n)) \<Longrightarrow> C n u
                 \<Longrightarrow> cache_key (origins ! n) (destinations ! u) \<in> fst ` set (fst s')"
      using process_elements_keys[OF step] unfolding C_def by simp_all
    show "P (Suc n) s'"
      unfolding P_def
    proof (intro allI impI)
      fix t u
      assume t: "t < Suc n" and u: "u < length (elements_of (rs ! t))" and c: "C t u"
      show "cache_key (origins ! t) (destinations ! u) \<in> fst ` set (fst s')"
      proof (cases "t = n")
        case True
        then show ?thesis using new u c by simp
      next
        case False
        then have "t < n" using t by simp
        then have "cache_key (origins ! t) (destinations ! u) \<in> fst ` set (fst s)"
          using p u c unfolding P_def by blast
        then show ?thesis using k by blast
      qed
    qed
  qed
  then show ?thesis unfolding P_def C_def .
qed

lemma process_element_lookup:
  assumes "process_element origin destination e s = Inr s'"
      and "loc_id origin \<noteq> loc_id destination \<and> el_status e = Some ''OK''
           \<longrightarrow> cache_key origin destination \<noteq> K"
  shows "map_of (fst s') K = map_of (fst s) K"
  using process_element_cases[OF assms(1)] assms(2)
  by (auto simp: update_conv')

lemma process_elements_lookup:
  assumes run: "process_elements origin destinations 0 es st = Inr st'"
      and free: "\<forall>u < length es. loc_id origin \<noteq> loc_id (destinations ! u)
                   \<and> el_status (es ! u) = Some ''OK''
                   \<longrightarrow> cache_key origin (destinations ! u) \<noteq> K"
  shows "map_of (fst st') K = map_of (fst st) K"
proof -
  define P where "P = (\<lambda>(t :: nat) (s :: routes \<times> event list). map_of (fst s) K = map_of (fst st) K)"
  have "P (length es) st'"
  proof (rule process_elements_rule[OF run, of P])
    show "P 0 st" by (simp add: P_def)
  next
    fix t s s'
    assume t: "t < length es" and p: "P t s"
      and step: "process_element origin (destinations ! (0 + t)) (es ! t) s = Inr s'"
    have "map_of (fst s') K = map_of (fst s) K"
      using process_element_lookup[OF step] free t by simp
    then show "P (Suc t) s'" using p by (simp add: P_def)
  qed
  then show ?thesis by (simp add: P_def)
qed

lemma process_elements_last_write:
  assumes run: "process_elements origin destinations 0 es st = Inr st'"
      and j: "j < length es"
      and w: "loc_id origin \<noteq> loc_id (destinations ! j)" "el_status (es ! j) = Some ''OK''"
             "distance_value (es ! j) = Some m" "duration_value (es ! j) = Some d"
             "py_truediv m 1000 = Inr km"
      and free: "\<forall>u < length es. j < u \<and> loc_id origin \<noteq> loc_id (destinations ! u)
                   \<and> el_status (es ! u) = Some ''OK''
                   \<longrightarrow> cache_key origin (destinations ! u) \<noteq> cache_key origin (destinations ! j)"
  shows "map_of (fst st') (cache_key origin (destinations ! j))
           = Some \<lparr>distance_km = py_round km 1, duration_seconds = d\<rparr>"
proof -
  define K where "K = cache_key origin (destinations ! j)"
  define P where "P = (\<lambda>(t :: nat) (s :: routes \<times> event list).
      j < t \<longrightarrow> map_of (fst s) K = Some \<lparr>distance_km = py_round km 1, duration_seconds = d\<rparr>)"
  have "P (length es) st'"
  proof (rule process_elements_rule[OF run, of P])
    show "P 0 st" by (simp add: P_def)
  next
    fix t s s'
    assume t: "t < length es" and p: "P t s"
      and step: "process_element origin (destinations ! (0 + t)) (es ! t) s = Inr s'"
    show "P (Suc t) s'"
    proof (cases "t = j")
      case True
      then have "s' = (AList.update K \<lparr>distance_km = py_round km 1, duration_seconds = d\<rparr> (fst s), snd s)"
        using step w by (simp add: process_element_def K_def)
      then show ?thesis by (simp add: P_def update_conv')
    next
      case False
      show ?thesis
      proof (cases "j < t")
        case True
        then have "map_of (fst s') K = map_of (fst s) K"
          using process_element_lookup[OF step, of K] free t by (simp add: K_def)
        then show ?thesis using p True by (simp add: P_def)
      next
        case False
        then show ?thesis using \<open>t \<noteq> j\<close> by (simp add: P_def)
      qed
    qed
  qed
  then show ?thesis using j by (simp add: P_def K_def)
qed

lemma process_rows_last_write:
  assumes run: "process_rows origins destinations 0 rs st = Inr st'"
      and i: "i < length rs" and j: "j < length (elements_of (rs ! i))"
      and w: "loc_id (origins ! i) \<noteq> loc_id (destinations ! j)"
             "el_status (elements_of (rs ! i) ! j) = Some ''OK''"
             "distance_value (elements_of (rs ! i) ! j) = Some m"
             "duration_value (elements_of (rs ! i) ! j) = Some d"
             "py_truediv m 1000 = Inr km"
      and free: "\<forall>i' < length rs. \<forall>j' < length (elements_of (rs ! i')).
                   (i < i' \<or> (i' = i \<and> j < j'))
                   \<and> loc_id (origins ! i') \<noteq> loc_id (destinations ! j')
                   \<and> el_status (elements_of (rs ! i') ! j') = Some ''OK''
                   \<longrightarrow> cache_key (origins ! i') (destinations ! j')
                         \<noteq> cache_key (origins ! i) (destinations ! j)"
  shows "map_of (fst st') (cache_key (origins ! i) (destinations ! j))
           = Some \<lparr>distance_km = py_round km 1, duration_seconds = d\<rparr>"
proof -
  define K where "K = cache_key (origins ! i) (destinations ! j)"
  define P where "P = (\<lambda>(n :: nat) (s :: routes \<times> event list).
      i < n \<longrightarrow> map_of (fst s) K = Some \<lparr>distance_km = py_round km 1, duration_seconds = d\<rparr>)"
  have "P (length rs) st'"
  proof (rule process_rows_rule[OF run, of P])
    show "P 0 st" by (simp add: P_def)
  next
    fix n s s'
    assume n: "n < length rs" and p: "P n s"
      and step: "process_elements (origins ! (0 + n)) destinations 0 (elements_of (rs ! n)) s = Inr s'"
    show "P (Suc n) s'"
    proof (cases "n = i")
      case True
      have "map_of (fst s') (cache_key (origins ! i) (destinations ! j))
              = Some \<lparr>distance_km = py_round km 1, duration_seconds = d\<rparr>"
      proof (rule process_elements_last_write[OF _ j w])
        show "process_elements (origins ! i) destinations 0 (elements_of (rs ! i)) s = Inr s'"
          using step True by simp
        show "\<forall>u < length (elements_of (rs ! i)). j < u \<and> loc_id (origins ! i) \<noteq> loc_id (destinations ! u)
                   \<and> el_status (elements_of (rs ! i) ! u) = Some ''OK''
                   \<longrightarrow> cache_key (origins ! i) (destinations ! u) \<noteq> cache_key (origins ! i) (destinations ! j)"
          using free i by blast
      qed
      then show ?thesis by (simp add: P_def K_def)
    next
      case False
      show ?thesis
      proof (cases "i < n")
        case True
        have "map_of (fst s') K = map_of (fst s) K"
        proof (rule process_elements_lookup)
          show "process_elements (origins ! n) destinations 0 (elements_of (rs ! n)) s = Inr s'"
            using step by simp
          show "\<forall>u < length (elements_of (rs ! n)). loc_id (origins ! n) \<noteq> loc_id (destinations ! u)
                   \<and> el_status (elements_of (rs ! n) ! u) = Some ''OK''
                   \<longrightarrow> cache_key (origins ! n) (destinations ! u) \<noteq> K"
            using free n True unfolding K_def by blast
        qed
        then show ?thesis using p True by (simp add: P_def)
      next
        case False
        then show ?thesis using \<open>n \<noteq> i\<close> by (simp add: P_def)
      qed
    qed
  qed
  then show ?thesis using i by (simp add: P_def K_def)
qed

text \<open>
  C4. An element with status OK at a position whose ids differ writes, at the key
  \<^verbatim>\<open>{origin_id}_{destination_id}\<close>, the entry with the reported duration as
  \<open>duration_seconds\<close> and \<^verbatim>\<open>round(distance_m / 1000, 1)\<close> as \<open>distance_km\<close>. That number is
  the metres divided by 1000 and rounded to one decimal place: it is the float nearest to
  \<open>k / 10\<close> for an integer \<open>k\<close>, hence within the relative error \<open>2\<^sup>-\<^sup>5\<^sup>3\<close> of \<open>k / 10\<close>, and
  \<open>k / 10\<close> lies within \<open>1 / 20\<close> of \<open>distance_m / 1000\<close>, up to the rounding error
  \<open>\<bar>distance_m / 1000\<bar> / 2\<^sup>5\<^sup>3\<close> of the float division. The division does not overflow for
  distances up to \<open>2\<^sup>1\<^sup>0\<^sup>0\<^sup>0\<close> metres. In the routes of a whole response every entry is such
  an entry of some OK element, the key of every OK element at a position with different
  ids has an entry, and that entry is the element's own unless a later OK element at a
  position with different ids has the same key.
\<close>

theorem ok_element_entry:
  "(loc_id origin \<noteq> loc_id destination \<and> el_status e = Some ''OK''
      \<and> distance_value e = Some m \<and> duration_value e = Some d \<and> py_truediv m 1000 = Inr km
     \<longrightarrow> (\<exists>routes'. process_element origin destination e (routes0, out0) = Inr (routes', out0)
            \<and> map_of routes' (cache_key origin destination)
                = Some \<lparr>distance_km = py_round km 1, duration_seconds = d\<rparr>)
         \<and> (\<exists>k :: int. py_round km 1 = float_of_rat (of_int k / 10)
               \<and> \<bar>py_round km 1 - of_int k / 10\<bar> \<le> \<bar>of_int k / 10\<bar> / 2 ^ 53
               \<and> \<bar>of_int k / 10 - of_int m / 1000 :: rat\<bar>
                    \<le> 1 / 20 + \<bar>of_int m / 1000\<bar> / 2 ^ 53))
   \<and> (\<bar>m\<bar> \<le> 2 ^ 1000 \<longrightarrow> (\<exists>km'. py_truediv m 1000 = Inr km'))
   \<and> (process_matrix_response data origins destinations = Inr (routes, warnings) \<longrightarrow>
        (\<forall>(k, v) \<in> set routes.
            \<exists>i j m d km n. i < length (rows_of data) \<and> j < length (elements_of (rows_of data ! i))
                 \<and> el_status (elements_of (rows_of data ! i) ! j) = Some ''OK''
                 \<and> distance_value (elements_of (rows_of data ! i) ! j) = Some m
                 \<and> duration_value (elements_of (rows_of data ! i) ! j) = Some d
                 \<and> py_truediv m 1000 = Inr km
                 \<and> k = cache_key (origins ! i) (destinations ! j)
                 \<and> v = \<lparr>distance_km = py_round km 1, duration_seconds = d\<rparr>
                 \<and> distance_km v = float_of_rat (of_int n / 10)
                 \<and> \<bar>distance_km v - of_int n / 10\<bar> \<le> \<bar>of_int n / 10\<bar> / 2 ^ 53
                 \<and> \<bar>of_int n / 10 - of_int m / 1000 :: rat\<bar>
                      \<le> 1 / 20 + \<bar>of_int m / 1000\<bar> / 2 ^ 53)
      \<and> (\<forall>i < length (rows_of data). \<forall>j < length (elements_of (rows_of data ! i)).
            loc_id (origins ! i) \<noteq> loc_id (destinations ! j)
            \<and> el_status (elements_of (rows_of data ! i) ! j) = Some ''OK''
            \<longrightarrow> (\<exists>v. map_of routes (cache_key (origins ! i) (destinations ! j)) = Some v
                    \<and> (cache_key (origins ! i) (destinations ! j), v) \<in> set routes))
      \<and> (\<forall>i < length (rows_of data). \<forall>j < length (elements_of (rows_of data ! i)). \<forall>m d km.
            loc_id (origins ! i) \<noteq> loc_id (destinations ! j)
            \<and> el_status (elements_of (rows_of data ! i) ! j) = Some ''OK''
            \<and> distance_value (elements_of (rows_of data ! i) ! j) = Some m
            \<and> duration_value (elements_of (rows_of data ! i) ! j) = Some d
            \<and> py_truediv m 1000 = Inr km
            \<and> (\<forall>i' < length (rows_of data). \<forall>j' < length (elements_of (rows_of data ! i')).
                  (i < i' \<or> (i' = i \<and> j < j'))
                  \<and> loc_id (origins ! i') \<noteq> loc_id (destinations ! j')
                  \<and> el_status (elements_of (rows_of data ! i') ! j') = Some ''OK''
                  \<longrightarrow> cache_key (origins ! i') (destinations ! j')
                        \<noteq> cache_key (origins ! i) (destinations ! j))
            \<longrightarrow> map_of routes (cache_key (origins ! i) (destinations ! j))
                  = Some \<lparr>distance_km = py_round km 1, duration_seconds = d\<rparr>))"
proof (intro conjI impI)
  assume h: "loc_id origin \<noteq> loc_id destination \<and> el_status e = Some ''OK''
      \<and> distance_value e = Some m \<and> duration_value e = Some d \<and> py_truediv m 1000 = Inr km"
  then show "\<exists>routes'. process_element origin destination e (routes0, out0) = Inr (routes', out0)
            \<and> map_of routes' (cache_key origin destination)
                = Some \<lparr>distance_km = py_round km 1, duration_seconds = d\<rparr>"
    by (simp add: process_element_def update_conv')
  from h have "py_truediv m 1000 = Inr km" by simp
  then show "\<exists>k :: int. py_round km 1 = float_of_rat (of_int k / 10)
               \<and> \<bar>py_round km 1 - of_int k / 10\<bar> \<le> \<bar>of_int k / 10\<bar> / 2 ^ 53
               \<and> \<bar>of_int k / 10 - of_int m / 1000 :: rat\<bar>
                    \<le> 1 / 20 + \<bar>of_int m / 1000\<bar> / 2 ^ 53"
    by (rule round_km)
next
  assume "\<bar>m\<bar> \<le> 2 ^ 1000"
  then show "\<exists>km'. py_truediv m 1000 = Inr km'" by (rule py_truediv_1000_total)
next
  assume run: "process_matrix_response data origins destinations = Inr (routes, warnings)"
  define A where "A = (\<lambda>k v. \<exists>i j m d km n. i < length (rows_of data)
                 \<and> j < length (elements_of (rows_of data ! i))
                 \<and> el_status (elements_of (rows_of data ! i) ! j) = Some ''OK''
                 \<and> distance_value (elements_of (rows_of data ! i) ! j) = Some m
                 \<and> duration_value (elements_of (rows_of data ! i) ! j) = Some d
                 \<and> py_truediv m 1000 = Inr km
                 \<and> k = cache_key (origins ! i) (destinations ! j)
                 \<and> v = \<lparr>distance_km = py_round km 1, duration_seconds = d\<rparr>
                 \<and> distance_km v = float_of_rat (of_int n / 10)
                 \<and> \<bar>distance_km v - of_int n / 10\<bar> \<le> \<bar>of_int n / 10\<bar> / 2 ^ 53
                 \<and> \<bar>of_int n / 10 - of_int m / 1000 :: rat\<bar>
                      \<le> 1 / 20 + \<bar>of_int m / 1000\<bar> / 2 ^ 53)"
  define Q where "Q = (\<lambda>s :: routes \<times> event list. \<forall>(k, v) \<in> set (fst s). A k v)"
  have "Q (routes, warnings)"
  proof (rule process_matrix_response_invariant[OF run, of Q])
    show "Q ([], [])" by (simp add: Q_def)
  next
    fix i j s s'
    assume i: "i < length (rows_of data)" and j: "j < length (elements_of (rows_of data ! i))"
      and q: "Q s"
      and step: "process_element (origins ! i) (destinations ! j) (elements_of (rows_of data ! i) ! j) s = Inr s'"
    from process_element_cases[OF step] show "Q s'"
    proof (elim disjE conjE exE)
      assume "s' = s"
      then show ?thesis using q by simp
    next
      fix m d km
      assume ok: "el_status (elements_of (rows_of data ! i) ! j) = Some ''OK''"
        and md: "distance_value (elements_of (rows_of data ! i) ! j) = Some m"
          "duration_value (elements_of (rows_of data ! i) ! j) = Some d"
          "py_truediv m 1000 = Inr km"
        and s': "s' = (AList.update (cache_key (origins ! i) (destinations ! j))
                         \<lparr>distance_km = py_round km 1, duration_seconds = d\<rparr> (fst s), snd s)"
      from round_km[OF md(3)] obtain n :: int where
        n: "py_round km 1 = float_of_rat (of_int n / 10)"
           "\<bar>py_round km 1 - of_int n / 10\<bar> \<le> \<bar>of_int n / 10\<bar> / 2 ^ 53"
           "\<bar>of_int n / 10 - of_int m / 1000 :: rat\<bar> \<le> 1 / 20 + \<bar>of_int m / 1000\<bar> / 2 ^ 53"
        by blast
      have "A (cache_key (origins ! i) (destinations ! j))
              \<lparr>distance_km = py_round km 1, duration_seconds = d\<rparr>"
        unfolding A_def
        apply (rule exI[of _ i], rule exI[of _ j], rule exI[of _ m], rule exI[of _ d],
               rule exI[of _ km], rule exI[of _ n])
        using i j ok md n by simp
      then show ?thesis
        using q set_update_subset[of "cache_key (origins ! i) (destinations ! j)"
                 "\<lparr>distance_km = py_round km 1, duration_seconds = d\<rparr>" "fst s"]
        unfolding Q_def s' by auto
    next
      assume "s' = (fst s, snd s @ [Warning (take 20 (nombre (origins ! i)))
                                          (take 20 (nombre (destinations ! j)))
                                          (el_status (elements_of (rows_of data ! i) ! j))])"
      then show ?thesis using q unfolding Q_def by simp
    qed
  qed
  then show "\<forall>(k, v) \<in> set routes.
            \<exists>i j m d km n. i < length (rows_of data) \<and> j < length (elements_of (rows_of data ! i))
                 \<and> el_status (elements_of (rows_of data ! i) ! j) = Some ''OK''
                 \<and> distance_value (elements_of (rows_of data ! i) ! j) = Some m
                 \<and> duration_value (elements_of (rows_of data ! i) ! j) = Some d
                 \<and> py_truediv m 1000 = Inr km
                 \<and> k = cache_key (origins ! i) (destinations ! j)
                 \<and> v = \<lparr>distance_km = py_round km 1, duration_seconds = d\<rparr>
                 \<and> distance_km v = float_of_rat (of_int n / 10)
                 \<and> \<bar>distance_km v - of_int n / 10\<bar> \<le> \<bar>of_int n / 10\<bar> / 2 ^ 53
                 \<and> \<bar>of_int n / 10 - of_int m / 1000 :: rat\<bar>
                      \<le> 1 / 20 + \<bar>of_int m / 1000\<bar> / 2 ^ 53"
    unfolding Q_def A_def by simp
  show "\<forall>i < length (rows_of data). \<forall>j < length (elements_of (rows_of data ! i)).
            loc_id (origins ! i) \<noteq> loc_id (destinations ! j)
            \<and> el_status (elements_of (rows_of data ! i) ! j) = Some ''OK''
            \<longrightarrow> (\<exists>v. map_of routes (cache_key (origins ! i) (destinations ! j)) = Some v
                    \<and> (cache_key (origins ! i) (destinations ! j), v) \<in> set routes)"
  proof (intro allI impI)
    fix i j
    assume i: "i < length (rows_of data)" and j: "j < length (elements_of (rows_of data ! i))"
      and c: "loc_id (origins ! i) \<noteq> loc_id (destinations ! j)
            \<and> el_status (elements_of (rows_of data ! i) ! j) = Some ''OK''"
    have "cache_key (origins ! i) (destinations ! j) \<in> fst ` set routes"
      using process_rows_keys[OF run[unfolded process_matrix_response_def]] i j c by simp
    then obtain v where v: "map_of routes (cache_key (origins ! i) (destinations ! j)) = Some v"
      using map_of_eq_None_iff[of routes "cache_key (origins ! i) (destinations ! j)"] by auto
    then have "(cache_key (origins ! i) (destinations ! j), v) \<in> set routes"
      by (rule map_of_SomeD)
    then show "\<exists>v. map_of routes (cache_key (origins ! i) (destinations ! j)) = Some v
                    \<and> (cache_key (origins ! i) (destinations ! j), v) \<in> set routes"
      using v by blast
  qed
  show "\<forall>i < length (rows_of data). \<forall>j < length (elements_of (rows_of data ! i)). \<forall>m d km.
            loc_id (origins ! i) \<noteq> loc_id (destinations ! j)
            \<and> el_status (elements_of (rows_of data ! i) ! j) = Some ''OK''
            \<and> distance_value (elements_of (rows_of data ! i) ! j) = Some m
            \<and> duration_value (elements_of (rows_of data ! i) ! j) = Some d
            \<and> py_truediv m 1000 = Inr km
            \<and> (\<forall>i' < length (rows_of data). \<forall>j' < length (elements_of (rows_of data ! i')).
                  (i < i' \<or> (i' = i \<and> j < j'))
                  \<and> loc_id (origins ! i') \<noteq> loc_id (destinations ! j')
                  \<and> el_status (elements_of (rows_of data ! i') ! j') = Some ''OK''
                  \<longrightarrow> cache_key (origins ! i') (destinations ! j')
                        \<noteq> cache_key (origins ! i) (destinations ! j))
            \<longrightarrow> map_of routes (cache_key (origins ! i) (destinations ! j))
                  = Some \<lparr>distance_km = py_round km 1, duration_seconds = d\<rparr>"
  proof (intro allI impI, elim conjE)
    fix i j m d km
    assume i: "i < length (rows_of data)" and j: "j < length (elements_of (rows_of data ! i))"
      and w: "loc_id (origins ! i) \<noteq> loc_id (destinations ! j)"
             "el_status (elements_of (rows_of data ! i) ! j) = Some ''OK''"
             "distance_value (elements_of (rows_of data ! i) ! j) = Some m"
             "duration_value (elements_of (rows_of data ! i) ! j) = Some d"
             "py_truediv m 1000 = Inr km"
      and free: "\<forall>i' < length (rows_of data). \<forall>j' < length (elements_of (rows_of data ! i')).
                  (i < i' \<or> (i' = i \<and> j < j'))
                  \<and> loc_id (origins ! i') \<noteq> loc_id (destinations ! j')
                  \<and> el_status (elements_of (rows_of data ! i') ! j') = Some ''OK''
                  \<longrightarrow> cache_key (origins ! i') (destinations ! j')
                        \<noteq> cache_key (origins ! i) (destinations ! j)"
    show "map_of routes (cache_key (origins ! i) (destinations ! j))
                  = Some \<lparr>distance_km = py_round km 1, duration_seconds = d\<rparr>"
      using process_rows_last_write[OF run[unfolded process_matrix_response_def] i j w free]
      by simp
  qed
qed

theorem ok_element_entry_witness:
  "loc_id (loc ''a'') \<noteq> loc_id (loc ''aa'') \<and> el_status (ok_element 1150 60) = Some ''OK''
   \<and> distance_value (ok_element 1150 60) = Some 1150
   \<and> duration_value (ok_element 1150 60) = Some 60
   \<and> py_truediv 1150 1000 = Inr (2589569785738035 / 2251799813685248)
   \<and> py_round (2589569785738035 / 2251799813685248) 1 = 2476979795053773 / 2251799813685248
   \<and> float_of_rat (11 / 10) = 2476979795053773 / 2251799813685248
   \<and> process_matrix_response rounding_data (sample_locations 2) (sample_locations 2)
       = Inr ([(''a_aa'', \<lparr>distance_km = 2476979795053773 / 2251799813685248, duration_seconds = 60\<rparr>),
               (''aa_a'', \<lparr>distance_km = 5404319552844595 / 4503599627370496, duration_seconds = 75\<rparr>)],
              [])
   \<and> (\<exists>routes'. process_element (loc ''a'') (loc ''aa'') (ok_element 1150 60) ([], []) = Inr (routes', [])
         \<and> map_of routes' (cache_key (loc ''a'') (loc ''aa''))
             = Some \<lparr>distance_km = 2476979795053773 / 2251799813685248, duration_seconds = 60\<rparr>)
   \<and> (\<exists>k :: int. 2476979795053773 / 2251799813685248 = float_of_rat (of_int k / 10)
         \<and> \<bar>2476979795053773 / 2251799813685248 - of_int k / 10 :: rat\<bar> \<le> \<bar>of_int k / 10\<bar> / 2 ^ 53
         \<and> \<bar>of_int k / 10 - of_int 1150 / 1000 :: rat\<bar> \<le> 1 / 20 + \<bar>of_int 1150 / 1000\<bar> / 2 ^ 53)
   \<and> map_of [(''a_aa'', \<lparr>distance_km = 2476979795053773 / 2251799813685248, duration_seconds = 60\<rparr>),
              (''aa_a'', \<lparr>distance_km = 5404319552844595 / 4503599627370496, duration_seconds = 75\<rparr>)]
         (cache_key (sample_locations 2 ! 0) (sample_locations 2 ! 1))
       = Some \<lparr>distance_km = 2476979795053773 / 2251799813685248, duration_seconds = 60\<rparr>"
proof -
  have t: "py_truediv 1150 1000 = Inr (2589569785738035 / 2251799813685248)" by code_simp
  have r: "py_round (2589569785738035 / 2251799813685248) 1 = 2476979795053773 / 2251799813685248"
    by code_simp
  have f: "float_of_rat (11 / 10) = 2476979795053773 / 2251799813685248" by code_simp
  have h: "loc_id (loc ''a'') \<noteq> loc_id (loc ''aa'') \<and> el_status (ok_element 1150 60) = Some ''OK''
      \<and> distance_value (ok_element 1150 60) = Some 1150
      \<and> duration_value (ok_element 1150 60) = Some 60
      \<and> py_truediv 1150 1000 = Inr (2589569785738035 / 2251799813685248)"
    using t by (simp add: loc_def ok_element_def)
  have b: "process_matrix_response rounding_data (sample_locations 2) (sample_locations 2)
       = Inr ([(''a_aa'', \<lparr>distance_km = 2476979795053773 / 2251799813685248, duration_seconds = 60\<rparr>),
               (''aa_a'', \<lparr>distance_km = 5404319552844595 / 4503599627370496, duration_seconds = 75\<rparr>)],
              [])"
    by code_simp
  note inst = ok_element_entry[of "loc ''a''" "loc ''aa''" "ok_element 1150 60" 1150 60
        "2589569785738035 / 2251799813685248" "[]" "[]"
        rounding_data "sample_locations 2" "sample_locations 2"
        "[(''a_aa'', \<lparr>distance_km = 2476979795053773 / 2251799813685248, duration_seconds = 60\<rparr>),
          (''aa_a'', \<lparr>distance_km = 5404319552844595 / 4503599627370496, duration_seconds = 75\<rparr>)]"
        "[]", THEN conjunct1, rule_format, OF h]
  have e: "\<exists>routes'. process_element (loc ''a'') (loc ''aa'') (ok_element 1150 60) ([], []) = Inr (routes', [])
         \<and> map_of routes' (cache_key (loc ''a'') (loc ''aa''))
             = Some \<lparr>distance_km = 2476979795053773 / 2251799813685248, duration_seconds = 60\<rparr>"
    using inst[THEN conjunct1] unfolding r .
  have k: "\<exists>k :: int. 2476979795053773 / 2251799813685248 = float_of_rat (of_int k / 10)
         \<and> \<bar>2476979795053773 / 2251799813685248 - of_int k / 10 :: rat\<bar> \<le> \<bar>of_int k / 10\<bar> / 2 ^ 53
         \<and> \<bar>of_int k / 10 - of_int 1150 / 1000 :: rat\<bar> \<le> 1 / 20 + \<bar>of_int 1150 / 1000\<bar> / 2 ^ 53"
    using inst[THEN conjunct2] unfolding r .
  have pos: "0 < length (rows_of rounding_data)"
    "1 < length (elements_of (rows_of rounding_data ! 0))"
    by (simp_all add: rounding_data_def rows_of_def elements_of_def)
  have w: "loc_id (sample_locations 2 ! 0) \<noteq> loc_id (sample_locations 2 ! 1)
      \<and> el_status (elements_of (rows_of rounding_data ! 0) ! 1) = Some ''OK''
      \<and> distance_value (elements_of (rows_of rounding_data ! 0) ! 1) = Some 1150
      \<and> duration_value (elements_of (rows_of rounding_data ! 0) ! 1) = Some 60
      \<and> py_truediv 1150 1000 = Inr (2589569785738035 / 2251799813685248)"
    using t
    by (simp add: rounding_data_def rows_of_def elements_of_def sample_locations_def loc_def
          ok_element_def upt_rec)
  have free: "\<forall>i' < length (rows_of rounding_data).
      \<forall>j' < length (elements_of (rows_of rounding_data ! i')).
        (0 < i' \<or> (i' = 0 \<and> 1 < j'))
        \<and> loc_id (sample_locations 2 ! i') \<noteq> loc_id (sample_locations 2 ! j')
        \<and> el_status (elements_of (rows_of rounding_data ! i') ! j') = Some ''OK''
        \<longrightarrow> cache_key (sample_locations 2 ! i') (sample_locations 2 ! j')
              \<noteq> cache_key (sample_locations 2 ! 0) (sample_locations 2 ! 1)"
    by (simp add: rounding_data_def rows_of_def elements_of_def sample_locations_def loc_def
          cache_key_def ok_element_def status_element_def less_Suc_eq numeral_2_eq_2 nth_Cons'
          upt_rec)
  note last = ok_element_entry[of "loc ''a''" "loc ''aa''" "ok_element 1150 60" 1150 60
        "2589569785738035 / 2251799813685248" "[]" "[]"
        rounding_data "sample_locations 2" "sample_locations 2"
        "[(''a_aa'', \<lparr>distance_km = 2476979795053773 / 2251799813685248, duration_seconds = 60\<rparr>),
          (''aa_a'', \<lparr>distance_km = 5404319552844595 / 4503599627370496, duration_seconds = 75\<rparr>)]"
        "[]", THEN conjunct2, THEN conjunct2, THEN mp, OF b, THEN conjunct2, THEN conjunct2,
        rule_format, OF pos, of 1150 60 "2589569785738035 / 2251799813685248"]
  have l: "map_of [(''a_aa'', \<lparr>distance_km = 2476979795053773 / 2251799813685248, duration_seconds = 60\<rparr>),
              (''aa_a'', \<lparr>distance_km = 5404319552844595 / 4503599627370496, duration_seconds = 75\<rparr>)]
         (cache_key (sample_locations 2 ! 0) (sample_locations 2 ! 1))
       = Some \<lparr>distance_km = 2476979795053773 / 2251799813685248, duration_seconds = 60\<rparr>"
    using last w free unfolding r by blast
  show ?thesis
    using h r f b e k l by blast
qed

section \<open>Indexing the batches by the positions of the response\<close>

lemma py_truediv_1000_error: "py_truediv m 1000 = Inl err \<Longrightarrow> err = OverflowError"
  by (auto simp: py_truediv_def Let_def split: if_splits)

lemma process_element_not_IndexError: "process_element origin destination e s \<noteq> Inl IndexError"
  by (auto simp: process_element_def split: option.splits sum.splits dest: py_truediv_1000_error)

lemma process_element_payload:
  "payload_ok e \<Longrightarrow> \<exists>s'. process_element origin destination e s = Inr s'"
  by (auto simp: process_element_def payload_ok_def split: option.splits sum.splits if_splits)

lemma process_elements_in_range:
  "j + length es \<le> length destinations
   \<Longrightarrow> process_elements origin destinations j es s \<noteq> Inl IndexError"
proof (induction es arbitrary: j s)
  case Nil
  then show ?case by simp
next
  case (Cons e es)
  then show ?case
    using process_element_not_IndexError[of origin "destinations ! j" e s]
    by (auto split: sum.splits)
qed

lemma process_elements_out_of_range:
  "j \<le> length destinations \<Longrightarrow> length destinations < j + length es
   \<Longrightarrow> \<exists>err. process_elements origin destinations j es s = Inl err"
proof (induction es arbitrary: j s)
  case Nil
  then show ?case by simp
next
  case (Cons e es)
  show ?case
  proof (cases "length destinations \<le> j")
    case True
    then show ?thesis by simp
  next
    case False
    then have "Suc j \<le> length destinations" "length destinations < Suc j + length es"
      using Cons.prems by simp_all
    from Cons.IH[OF this] show ?thesis using False by (auto split: sum.splits)
  qed
qed

lemma process_elements_out_of_range_payload:
  "j \<le> length destinations \<Longrightarrow> length destinations < j + length es \<Longrightarrow> \<forall>e \<in> set es. payload_ok e
   \<Longrightarrow> process_elements origin destinations j es s = Inl IndexError"
proof (induction es arbitrary: j s)
  case Nil
  then show ?case by simp
next
  case (Cons e es)
  show ?case
  proof (cases "length destinations \<le> j")
    case True
    then show ?thesis by simp
  next
    case False
    then have lt: "Suc j \<le> length destinations" "length destinations < Suc j + length es"
      using Cons.prems by simp_all
    obtain s1 where s1: "process_element origin (destinations ! j) e s = Inr s1"
      using process_element_payload[of e origin "destinations ! j" s] Cons.prems(3) by auto
    show ?thesis using False s1 Cons.IH[OF lt, of s1] Cons.prems(3) by simp
  qed
qed

lemma process_elements_completes:
  "j + length es \<le> length destinations \<Longrightarrow> \<forall>e \<in> set es. payload_ok e
   \<Longrightarrow> \<exists>s'. process_elements origin destinations j es s = Inr s'"
proof (induction es arbitrary: j s)
  case Nil
  then show ?case by simp
next
  case (Cons e es)
  obtain s1 where s1: "process_element origin (destinations ! j) e s = Inr s1"
    using process_element_payload[of e origin "destinations ! j" s] Cons.prems(2) by auto
  have "Suc j + length es \<le> length destinations" using Cons.prems(1) by simp
  from Cons.IH[OF this, of s1] show ?case using Cons.prems s1 by simp
qed

lemma process_rows_in_range:
  "i + length rs \<le> length origins
   \<Longrightarrow> \<forall>r \<in> set rs. length (elements_of r) \<le> length destinations
   \<Longrightarrow> process_rows origins destinations i rs s \<noteq> Inl IndexError"
proof (induction rs arbitrary: i s)
  case Nil
  then show ?case by simp
next
  case (Cons r rs)
  have "process_elements (origins ! i) destinations 0 (elements_of r) s \<noteq> Inl IndexError"
    using process_elements_in_range[of 0 "elements_of r" destinations] Cons.prems(2) by simp
  moreover have "\<And>s1. process_rows origins destinations (Suc i) rs s1 \<noteq> Inl IndexError"
    using Cons.IH[of "Suc i"] Cons.prems by simp
  ultimately show ?case using Cons.prems(1) by (auto split: sum.splits)
qed

lemma process_rows_out_of_range:
  "i \<le> length origins \<Longrightarrow> \<not> (i + length rs \<le> length origins
       \<and> (\<forall>r \<in> set rs. length (elements_of r) \<le> length destinations))
   \<Longrightarrow> \<exists>err. process_rows origins destinations i rs s = Inl err"
proof (induction rs arbitrary: i s)
  case Nil
  then show ?case by simp
next
  case (Cons r rs)
  show ?case
  proof (cases "length origins \<le> i")
    case True
    then show ?thesis by simp
  next
    case i: False
    show ?thesis
    proof (cases "length (elements_of r) \<le> length destinations")
      case True
      then have "Suc i \<le> length origins"
        "\<not> (Suc i + length rs \<le> length origins
                   \<and> (\<forall>r \<in> set rs. length (elements_of r) \<le> length destinations))"
        using Cons.prems i by auto
      from Cons.IH[OF this] show ?thesis using i by (auto split: sum.splits)
    next
      case False
      then obtain err where
        "process_elements (origins ! i) destinations 0 (elements_of r) s = Inl err"
        using process_elements_out_of_range[of 0 destinations "elements_of r" "origins ! i" s] by auto
      then show ?thesis using i by simp
    qed
  qed
qed

lemma process_rows_out_of_range_payload:
  "i \<le> length origins \<Longrightarrow> \<not> (i + length rs \<le> length origins
       \<and> (\<forall>r \<in> set rs. length (elements_of r) \<le> length destinations))
   \<Longrightarrow> \<forall>r \<in> set rs. \<forall>e \<in> set (elements_of r). payload_ok e
   \<Longrightarrow> process_rows origins destinations i rs s = Inl IndexError"
proof (induction rs arbitrary: i s)
  case Nil
  then show ?case by simp
next
  case (Cons r rs)
  show ?case
  proof (cases "length origins \<le> i")
    case True
    then show ?thesis by simp
  next
    case i: False
    show ?thesis
    proof (cases "length (elements_of r) \<le> length destinations")
      case True
      then have bad: "Suc i \<le> length origins"
        "\<not> (Suc i + length rs \<le> length origins
                   \<and> (\<forall>r \<in> set rs. length (elements_of r) \<le> length destinations))"
        using Cons.prems(1,2) i by auto
      obtain s1 where s1: "process_elements (origins ! i) destinations 0 (elements_of r) s = Inr s1"
        using process_elements_completes[of 0 "elements_of r" destinations "origins ! i" s]
          True Cons.prems(3) by auto
      show ?thesis using i s1 Cons.IH[OF bad, of s1] Cons.prems(3) by simp
    next
      case False
      then have "process_elements (origins ! i) destinations 0 (elements_of r) s = Inl IndexError"
        using process_elements_out_of_range_payload[of 0 destinations "elements_of r" "origins ! i" s]
          Cons.prems(3) by simp
      then show ?thesis using i by simp
    qed
  qed
qed

lemma process_rows_completes:
  "i + length rs \<le> length origins
   \<Longrightarrow> \<forall>r \<in> set rs. length (elements_of r) \<le> length destinations
   \<Longrightarrow> \<forall>r \<in> set rs. \<forall>e \<in> set (elements_of r). payload_ok e
   \<Longrightarrow> \<exists>s'. process_rows origins destinations i rs s = Inr s'"
proof (induction rs arbitrary: i s)
  case Nil
  then show ?case by simp
next
  case (Cons r rs)
  obtain s1 where s1: "process_elements (origins ! i) destinations 0 (elements_of r) s = Inr s1"
    using process_elements_completes[of 0 "elements_of r" destinations "origins ! i" s]
      Cons.prems(2,3) by auto
  have "\<exists>s'. process_rows origins destinations (Suc i) rs s1 = Inr s'"
    using Cons.IH[of "Suc i" s1] Cons.prems by simp
  then show ?case using Cons.prems(1) s1 by simp
qed

text \<open>
  C10. \<^verbatim>\<open>origins[i]\<close> and \<^verbatim>\<open>destinations[j]\<close> are read at the positions of the response. When
  the response has at most as many rows as origins and every row at most as many elements
  as destinations, no read is out of range (and the aggregation returns when no element
  raises by itself). When the response is larger in either direction the aggregation does
  not return: it raises, and the exception is \<^verbatim>\<open>IndexError\<close> unless an element raised before.
\<close>

theorem response_shape_indexing:
  "(shape_ok data origins destinations
      \<longrightarrow> process_matrix_response data origins destinations \<noteq> Inl IndexError)
   \<and> (shape_ok data origins destinations \<and> payload_all_ok data
      \<longrightarrow> (\<exists>res. process_matrix_response data origins destinations = Inr res))
   \<and> (\<not> shape_ok data origins destinations
      \<longrightarrow> (\<exists>err. process_matrix_response data origins destinations = Inl err))
   \<and> (\<not> shape_ok data origins destinations \<and> payload_all_ok data
      \<longrightarrow> process_matrix_response data origins destinations = Inl IndexError)"
  unfolding shape_ok_def payload_all_ok_def process_matrix_response_def list_all_iff
  using process_rows_in_range[where i = 0 and rs = "rows_of data" and origins = origins
          and destinations = destinations and s = "([], [])"]
        process_rows_completes[where i = 0 and rs = "rows_of data" and origins = origins
          and destinations = destinations and s = "([], [])"]
        process_rows_out_of_range[where i = 0 and rs = "rows_of data" and origins = origins
          and destinations = destinations and s = "([], [])"]
        process_rows_out_of_range_payload[where i = 0 and rs = "rows_of data" and origins = origins
          and destinations = destinations and s = "([], [])"]
  by simp

theorem response_shape_indexing_witness:
  "shape_ok mixed_data (sample_locations 2) (sample_locations 2)
   \<and> payload_all_ok mixed_data
   \<and> (\<exists>res. process_matrix_response mixed_data (sample_locations 2) (sample_locations 2) = Inr res)
   \<and> \<not> shape_ok mixed_data (sample_locations 1) (sample_locations 2)
   \<and> process_matrix_response mixed_data (sample_locations 1) (sample_locations 2) = Inl IndexError
   \<and> \<not> shape_ok mixed_data (sample_locations 2) (sample_locations 1)
   \<and> process_matrix_response mixed_data (sample_locations 2) (sample_locations 1) = Inl IndexError"
proof -
  have a: "shape_ok mixed_data (sample_locations 2) (sample_locations 2)"
    by code_simp
  have p: "payload_all_ok mixed_data"
    by code_simp
  have b: "\<not> shape_ok mixed_data (sample_locations 1) (sample_locations 2)"
    by code_simp
  have c: "\<not> shape_ok mixed_data (sample_locations 2) (sample_locations 1)"
    by code_simp
  show ?thesis
    using a p b c
      response_shape_indexing[of mixed_data "sample_locations 2" "sample_locations 2"]
      response_shape_indexing[of mixed_data "sample_locations 1" "sample_locations 2"]
      response_shape_indexing[of mixed_data "sample_locations 2" "sample_locations 1"]
    by blast
qed

section \<open>Failed requests\<close>

lemma request_step_http_error:
  assumes "world (request_count st) (batch_origins q) (batch_destinations q) = Responds response"
      and "\<not> ok response"
  shows "request_step world q st
           = Inr \<lparr>cache = cache st, request_count = request_count st + 1,
                  out = out st @ [Request (request_count st + 1) (i_start q + 1) (i_end q)
                                    (j_start q + 1) (j_end q),
                                  HttpError (status_code response), Failed]\<rparr>"
  using assms by (simp add: request_step_def get_distance_matrix_def)

lemma request_step_api_error:
  assumes "world (request_count st) (batch_origins q) (batch_destinations q) = Responds response"
      and "ok response" and "json response = Some data" and "status data \<noteq> Some ''OK''"
  shows "\<exists>evs. request_step world q st
           = Inr \<lparr>cache = cache st, request_count = request_count st + 1, out = evs\<rparr>"
  using assms by (simp add: request_step_def get_distance_matrix_def)

lemma request_step_raises:
  assumes "world (request_count st) (batch_origins q) (batch_destinations q) = Raises"
  shows "request_step world q st = Inl RequestException"
  using assms by (simp add: request_step_def get_distance_matrix_def)

text \<open>
  C3. With eleven locations the loops issue four requests. When the first one is answered
  with HTTP status 500, the run completes with exit status 0 and saves the 20 routes of the
  other three requests. When the first one fails inside \<^verbatim>\<open>requests.get\<close>, nothing catches
  the exception: the run ends there with exit status 1, the other three requests are never
  issued and nothing is saved.
\<close>

theorem network_error_aborts_run:
  "main ''key'' (good_files (sample_locations 11)) (raising_world (ok_element 0 0)) = Uncaught RequestException
   \<and> exit_status (Uncaught RequestException) = 1
   \<and> saved_routes (Uncaught RequestException) = None
   \<and> map_option length (saved_routes (main ''key'' (good_files (sample_locations 11)) (http_500_world (ok_element 0 0))))
       = Some 20
   \<and> exit_status (main ''key'' (good_files (sample_locations 11)) (http_500_world (ok_element 0 0))) = 0"
proof -
  have a: "main ''key'' (good_files (sample_locations 11)) (raising_world (ok_element 0 0)) = Uncaught RequestException"
    by code_simp
  have b: "map_option length
             (saved_routes (main ''key'' (good_files (sample_locations 11)) (http_500_world (ok_element 0 0))))
           = Some 20"
    by code_simp
  have c: "exit_status (main ''key'' (good_files (sample_locations 11)) (http_500_world (ok_element 0 0))) = 0"
    by code_simp
  show ?thesis using a b c by simp
qed

section \<open>Exit status\<close>

lemma main_run:
  "main key fs world =
     (if key = [] then SysExit 1 [Header, MissingKey]
      else case locations_json fs of
             Inl e \<Rightarrow> Uncaught e
           | Inr locations \<Rightarrow>
              (case run_sub_queries world (sub_queries locations BATCH_SIZE)
                      \<lparr>cache = [], request_count = 0,
                       out = [Header, Found (length locations),
                              TotalRoutes (length locations * (length locations - 1))]\<rparr> of
                 Inl e \<Rightarrow> Uncaught e
               | Inr st \<Rightarrow>
                  (case cache_write fs of
                     Some e \<Rightarrow> Uncaught e
                   | None \<Rightarrow>
                       Completed (cache st)
                         (out st @ [Summary (request_count st) (length (cache st))
                                      (length locations * (length locations - 1))]
                            @ (if length (cache st) < length locations * (length locations - 1)
                               then [RoutesFailed (length locations * (length locations - 1)
                                                    - length (cache st))]
                               else [])))))"
  by (simp add: main_def load_locations_def Let_def outer_loop_run split: sum.splits)

text \<open>
  C8, as stated, fails: the run also exits with status 1 when the credential is present but the
  \<^verbatim>\<open>requests\<close> library cannot be imported.
\<close>

theorem exit_nonzero_with_credential:
  "exit_status (script False (Some ''key'') (good_files (sample_locations 2)) mixed_world) = 1
   \<and> Some ''key'' \<noteq> (None :: string option) \<and> ''key'' \<noteq> []"
  by (simp add: script_def)

text \<open>
  C8, amended. The script exits with status 1 through \<^verbatim>\<open>sys.exit(1)\<close> in two cases, both before
  any file is read and any request is made (the outcome depends neither on the files nor on
  the world): when \<^verbatim>\<open>requests\<close> cannot be imported, and when \<^verbatim>\<open>GOOGLE_API_KEY\<close> is unset or
  empty. When neither is the case, the locations file is read, the loops run to their end and
  the cache file is written, the exit status is 0, also when fewer than \<open>n * (n - 1)\<close>
  routes were cached, which is only reported as a last warning line. Every other non-zero
  exit comes from an exception that nothing catches: one raised while the locations file is
  read, inside the loops, or while the cache file is written.
\<close>

theorem exit_status_cases:
  "(\<not> requests_installed
      \<longrightarrow> script requests_installed env_key fs world = SysExit 1 [RequestsNotInstalled])
   \<and> (requests_installed \<and> (env_key = None \<or> env_key = Some [])
      \<longrightarrow> script requests_installed env_key fs world = SysExit 1 [Header, MissingKey])
   \<and> (requests_installed \<and> env_key = Some key \<and> key \<noteq> []
        \<and> locations_json fs = Inr locations
        \<and> run_sub_queries world (sub_queries locations BATCH_SIZE)
              \<lparr>cache = [], request_count = 0,
               out = [Header, Found (length locations),
                      TotalRoutes (length locations * (length locations - 1))]\<rparr> = Inr st
        \<and> cache_write fs = None
      \<longrightarrow> exit_status (script requests_installed env_key fs world) = 0
          \<and> saved_routes (script requests_installed env_key fs world) = Some (cache st)
          \<and> (length (cache st) < length locations * (length locations - 1)
              \<longrightarrow> script requests_installed env_key fs world
                    = Completed (cache st)
                        (out st @ [Summary (request_count st) (length (cache st))
                                     (length locations * (length locations - 1)),
                                   RoutesFailed (length locations * (length locations - 1)
                                                  - length (cache st))])))
   \<and> (exit_status (script requests_installed env_key fs world) \<noteq> 0
      \<longrightarrow> \<not> requests_installed \<or> env_key = None \<or> env_key = Some []
          \<or> (\<exists>e. script requests_installed env_key fs world = Uncaught e
                \<and> (locations_json fs = Inl e
                    \<or> (\<exists>locs. locations_json fs = Inr locs
                          \<and> run_sub_queries world (sub_queries locs BATCH_SIZE)
                                \<lparr>cache = [], request_count = 0,
                                 out = [Header, Found (length locs),
                                        TotalRoutes (length locs * (length locs - 1))]\<rparr> = Inl e)
                    \<or> cache_write fs = Some e)))"
proof (intro conjI impI)
  assume "\<not> requests_installed"
  then show "script requests_installed env_key fs world = SysExit 1 [RequestsNotInstalled]"
    by (simp add: script_def)
next
  assume "requests_installed \<and> (env_key = None \<or> env_key = Some [])"
  then show "script requests_installed env_key fs world = SysExit 1 [Header, MissingKey]"
    by (auto simp: script_def main_run)
next
  assume h: "requests_installed \<and> env_key = Some key \<and> key \<noteq> []
        \<and> locations_json fs = Inr locations
        \<and> run_sub_queries world (sub_queries locations BATCH_SIZE)
              \<lparr>cache = [], request_count = 0,
               out = [Header, Found (length locations),
                      TotalRoutes (length locations * (length locations - 1))]\<rparr> = Inr st
        \<and> cache_write fs = None"
  then show "exit_status (script requests_installed env_key fs world) = 0"
    by (simp add: script_def main_run)
  from h show "saved_routes (script requests_installed env_key fs world) = Some (cache st)"
    by (simp add: script_def main_run)
  assume "length (cache st) < length locations * (length locations - 1)"
  with h show "script requests_installed env_key fs world
                    = Completed (cache st)
                        (out st @ [Summary (request_count st) (length (cache st))
                                     (length locations * (length locations - 1)),
                                   RoutesFailed (length locations * (length locations - 1)
                                                  - length (cache st))])"
    by (simp add: script_def main_run)
next
  assume "exit_status (script requests_installed env_key fs world) \<noteq> 0"
  then show "\<not> requests_installed \<or> env_key = None \<or> env_key = Some []
          \<or> (\<exists>e. script requests_installed env_key fs world = Uncaught e
                \<and> (locations_json fs = Inl e
                    \<or> (\<exists>locs. locations_json fs = Inr locs
                          \<and> run_sub_queries world (sub_queries locs BATCH_SIZE)
                                \<lparr>cache = [], request_count = 0,
                                 out = [Header, Found (length locs),
                                        TotalRoutes (length locs * (length locs - 1))]\<rparr> = Inl e)
                    \<or> cache_write fs = Some e))"
    by (auto simp: script_def main_run split: if_splits option.splits sum.splits)
qed

theorem exit_status_cases_witness:
  "script False (Some ''key'') (good_files (sample_locations 2)) mixed_world
     = SysExit 1 [RequestsNotInstalled]
   \<and> script True None (good_files (sample_locations 2)) mixed_world = SysExit 1 [Header, MissingKey]
   \<and> locations_json (good_files (sample_locations 2)) = Inr (sample_locations 2)
   \<and> cache_write (good_files (sample_locations 2)) = None
   \<and> run_sub_queries mixed_world (sub_queries (sample_locations 2) BATCH_SIZE)
        \<lparr>cache = [], request_count = 0, out = [Header, Found 2, TotalRoutes 2]\<rparr>
      = Inr \<lparr>cache = [(''a_aa'', \<lparr>distance_km = 25 / 2, duration_seconds = 900\<rparr>)],
             request_count = 1,
             out = [Header, Found 2, TotalRoutes 2, Request 1 1 2 1 2,
                    Warning ''aa'' ''a'' (Some ''ZERO_RESULTS''), Got 1]\<rparr>
   \<and> exit_status (script True (Some ''key'') (good_files (sample_locations 2)) mixed_world) = 0
   \<and> script True (Some ''key'') (good_files (sample_locations 2)) mixed_world
      = Completed [(''a_aa'', \<lparr>distance_km = 25 / 2, duration_seconds = 900\<rparr>)]
          [Header, Found 2, TotalRoutes 2, Request 1 1 2 1 2,
           Warning ''aa'' ''a'' (Some ''ZERO_RESULTS''), Got 1, Summary 1 1 2, RoutesFailed 1]
   \<and> exit_status (script True (Some ''key'')
                     \<lparr>locations_json = Inl OSError, cache_write = None\<rparr> mixed_world) = 1
   \<and> script True (Some ''key'') \<lparr>locations_json = Inl OSError, cache_write = None\<rparr> mixed_world
      = Uncaught OSError"
proof -
  have len: "length (sample_locations 2) = 2"
    by (simp add: sample_locations_def)
  have run: "run_sub_queries mixed_world (sub_queries (sample_locations 2) BATCH_SIZE)
        \<lparr>cache = [], request_count = 0, out = [Header, Found 2, TotalRoutes 2]\<rparr>
      = Inr \<lparr>cache = [(''a_aa'', \<lparr>distance_km = 25 / 2, duration_seconds = 900\<rparr>)],
             request_count = 1,
             out = [Header, Found 2, TotalRoutes 2, Request 1 1 2 1 2,
                    Warning ''aa'' ''a'' (Some ''ZERO_RESULTS''), Got 1]\<rparr>"
    by code_simp
  have ex: "exit_status (script True (Some ''key'')
                     \<lparr>locations_json = Inl OSError, cache_write = None\<rparr> mixed_world) \<noteq> 0"
    by (simp add: script_def main_run)
  note a = exit_status_cases[of False "Some ''key''" "good_files (sample_locations 2)" mixed_world]
  note b = exit_status_cases[of True None "good_files (sample_locations 2)" mixed_world]
  note c = exit_status_cases[of True "Some ''key''" "good_files (sample_locations 2)" mixed_world
      "''key''" "sample_locations 2"
      "\<lparr>cache = [(''a_aa'', \<lparr>distance_km = 25 / 2, duration_seconds = 900\<rparr>)],
        request_count = 1,
        out = [Header, Found 2, TotalRoutes 2, Request 1 1 2 1 2,
               Warning ''aa'' ''a'' (Some ''ZERO_RESULTS''), Got 1]\<rparr>"]
  note d = exit_status_cases[of True "Some ''key''"
      "\<lparr>locations_json = Inl OSError, cache_write = None\<rparr>" mixed_world]
  have d': "script True (Some ''key'') \<lparr>locations_json = Inl OSError, cache_write = None\<rparr> mixed_world
              = Uncaught OSError"
    using d ex by auto
  show ?thesis
    using a b c run d' by (simp add: len good_files_def)
qed

section \<open>Ranges with a step\<close>

lemma ceil_div_step:
  assumes b: "0 < b" and lt: "s < n"
  shows "(n - s + b - 1) div b = Suc ((n - (s + b) + b - 1) div b)"
proof -
  define m where "m = n - s"
  have m: "0 < m" using lt by (simp add: m_def)
  have sub: "n - (s + b) = m - b" by (simp add: m_def)
  have "(m + b - 1) div b = Suc ((m - b + b - 1) div b)"
  proof (cases "b \<le> m")
    case True
    have e1: "m + b - 1 = (m - 1) + b" using m by arith
    have e2: "m - b + b - 1 = m - 1" using True by arith
    have "(m - 1 + b) div b = Suc ((m - 1) div b)" using b by simp
    then show ?thesis by (simp only: e1 e2)
  next
    case False
    have e2: "m - b + b - 1 = b - 1" using False by arith
    have "(b - 1) div b = 0" using b by simp
    moreover have "(m + b - 1) div b = 1"
    proof (rule div_nat_eqI)
      show "b * 1 \<le> m + b - 1" using m by arith
      show "m + b - 1 < b * Suc 1" using False by arith
    qed
    ultimately show ?thesis by (simp only: e2)
  qed
  then show ?thesis by (simp only: m_def[symmetric] sub)
qed

lemma py_range_Cons: "0 < b \<Longrightarrow> s < n \<Longrightarrow> py_range s n b = s # py_range (s + b) n b"
  by (subst py_range.simps) simp

lemma py_range_Nil: "\<not> s < n \<Longrightarrow> py_range s n b = []"
  by (subst py_range.simps) simp

lemma py_range_map:
  "0 < b \<Longrightarrow> py_range s n b = map (\<lambda>k. s + k * b) [0..<(n - s + b - 1) div b]"
proof (induction s n b rule: py_range.induct)
  case (1 start stop step)
  show ?case
  proof (cases "start < stop")
    case True
    have ih: "py_range (start + step) stop step
        = map (\<lambda>k. start + step + k * step) [0..<(stop - (start + step) + step - 1) div step]"
      using 1 True by simp
    have "map (\<lambda>k. start + k * step) [0..<Suc ((stop - (start + step) + step - 1) div step)]
        = start # map (\<lambda>k. start + step + k * step) [0..<(stop - (start + step) + step - 1) div step]"
      unfolding map_upt_Suc by (simp add: ac_simps)
    then show ?thesis
      unfolding ceil_div_step[OF 1(2) True] py_range_Cons[OF 1(2) True] ih by simp
  next
    case False
    then have "(stop - start + step - 1) div step = 0" using 1(2) by simp
    then show ?thesis using False by (simp add: py_range_Nil)
  qed
qed

lemma py_range_0: "0 < b \<Longrightarrow> py_range 0 n b = map (\<lambda>k. k * b) [0..<ceil_div n b]"
  by (simp add: py_range_map ceil_div_def)

lemma ceil_div_less:
  assumes "0 < b" "k < ceil_div n b"
  shows "k * b < n"
proof (rule ccontr)
  assume "\<not> k * b < n"
  then have "n + b - 1 < Suc k * b" using assms(1) by simp
  then have "(n + b - 1) div b < Suc k" by (rule less_mult_imp_div_less)
  then show False using assms(2) by (simp add: ceil_div_def)
qed

lemma py_range_mem:
  assumes "0 < b" "x \<in> set (py_range 0 n b)"
  shows "x < n \<and> b dvd x"
  using assms by (auto simp: py_range_0 ceil_div_less)

lemma distinct_py_range: "0 < b \<Longrightarrow> distinct (py_range 0 n b)"
  by (simp add: py_range_0 distinct_map inj_on_def)

lemma chunks_concat:
  "0 < b \<Longrightarrow> s \<le> n \<Longrightarrow> concat (map (\<lambda>i. [i..<min (i + b) n]) (py_range s n b)) = [s..<n]"
proof (induction s n b rule: py_range.induct)
  case (1 start stop step)
  show ?case
  proof (cases "start < stop")
    case True
    show ?thesis
    proof (cases "start + step \<le> stop")
      case le: True
      have ih: "concat (map (\<lambda>i. [i..<min (i + step) stop]) (py_range (start + step) stop step))
                  = [start + step..<stop]"
        using 1 True le by simp
      obtain d where d: "stop = (start + step) + d" using le le_Suc_ex by blast
      have "[start..<(start + step) + d] = [start..<start + step] @ [start + step..<(start + step) + d]"
        by (rule upt_add_eq_append) simp
      then have "[start..<start + step] @ [start + step..<stop] = [start..<stop]"
        unfolding d by simp
      then show ?thesis
        unfolding py_range_Cons[OF 1(2) True] using ih le by (simp add: min_def)
    next
      case False
      then have "py_range (start + step) stop step = []" by (simp add: py_range_Nil)
      then show ?thesis
        unfolding py_range_Cons[OF 1(2) True] using False by (simp add: min_def)
    qed
  next
    case False
    then show ?thesis using 1(3) by (simp add: py_range_Nil)
  qed
qed

lemma chunks_cover:
  assumes "0 < b"
  shows "(\<Union>i\<in>set (py_range 0 n b). {i..<min (i + b) n}) = {0..<n}"
proof -
  have "set (concat (map (\<lambda>i. [i..<min (i + b) n]) (py_range 0 n b))) = set [0..<n]"
    using chunks_concat[OF assms, of 0 n] by simp
  then show ?thesis by simp
qed

lemma chunks_disjoint:
  assumes "0 < b" "x \<in> set (py_range 0 n b)" "y \<in> set (py_range 0 n b)" "x \<noteq> y"
  shows "{x..<x + b} \<inter> {y..<y + b} = {}"
proof -
  have "b dvd x" "b dvd y" using py_range_mem[OF assms(1)] assms(2,3) by simp_all
  then obtain k l where kl: "x = b * k" "y = b * l" by (auto elim!: dvdE)
  have "k \<noteq> l" using kl assms(4) by auto
  have "False" if t: "t \<in> {x..<x + b} \<inter> {y..<y + b}" for t
  proof -
    have "b * k \<le> t" "t < b * Suc k" "b * l \<le> t" "t < b * Suc l" using t kl by auto
    then have "t div b = k" "t div b = l" by (auto intro: div_nat_eqI)
    then show False using \<open>k \<noteq> l\<close> by simp
  qed
  then show ?thesis by blast
qed

section \<open>The sub-queries as a grid of chunks\<close>

lemma length_concat_map_map:
  "length (concat (map (\<lambda>x. map (g x) ys) xs)) = length xs * length ys"
  by (induction xs) simp_all

lemma distinct_concat_map:
  assumes "distinct xs"
      and "\<And>x. x \<in> set xs \<Longrightarrow> distinct (f x)"
      and "\<And>x y. x \<in> set xs \<Longrightarrow> y \<in> set xs \<Longrightarrow> x \<noteq> y \<Longrightarrow> set (f x) \<inter> set (f y) = {}"
  shows "distinct (concat (map f xs))"
  using assms
proof (induction xs)
  case Nil
  then show ?case by simp
next
  case (Cons x xs)
  have "distinct (concat (map f xs))"
    using Cons by simp
  moreover have "distinct (f x)" using Cons.prems(2) by simp
  moreover have "set (f x) \<inter> (\<Union>y\<in>set xs. set (f y)) = {}"
  proof -
    have "set (f x) \<inter> set (f y) = {}" if "y \<in> set xs" for y
      using Cons.prems(1) Cons.prems(3)[of x y] that by auto
    then show ?thesis by blast
  qed
  ultimately show ?case by simp
qed

lemma py_slice_nth: "b \<le> length xs \<Longrightarrow> py_slice xs a b = map (nth xs) [a..<b]"
  by (rule nth_equalityI) (auto simp: py_slice_def)

lemma length_py_range: "0 < b \<Longrightarrow> length (py_range 0 n b) = ceil_div n b"
  by (simp add: py_range_0)

lemma sub_queries_0: "sub_queries [] B = []"
  by (simp add: sub_queries_def py_range_Nil)

lemma length_sub_queries:
  "0 < B \<Longrightarrow> length (sub_queries locations B)
     = ceil_div (length locations) B * ceil_div (length locations) B"
  by (simp add: sub_queries_def length_concat_map_map length_py_range)

lemma bounds_make_sub_query:
  "bounds (make_sub_query locations B i j)
     = ((i, min (i + B) (length locations)), (j, min (j + B) (length locations)))"
  by (simp add: bounds_def make_sub_query_def Let_def)

lemma chunk_bounds_py_range:
  "0 < B \<Longrightarrow> chunk_bounds n B = map (\<lambda>s. (s, min (s + B) n)) (py_range 0 n B)"
  by (simp add: chunk_bounds_def py_range_0 comp_def)

lemma bounds_sub_queries:
  assumes "0 < B"
  shows "map bounds (sub_queries locations B)
           = List.product (chunk_bounds (length locations) B) (chunk_bounds (length locations) B)"
  unfolding chunk_bounds_py_range[OF assms] sub_queries_def product_concat_map
  by (simp add: map_concat comp_def bounds_make_sub_query)

lemma sub_query_chunks:
  assumes B: "0 < B" and q: "q \<in> set (sub_queries locations B)"
  shows "i_start q < i_end q \<and> i_end q \<le> length locations \<and> i_end q - i_start q \<le> B
       \<and> j_start q < j_end q \<and> j_end q \<le> length locations \<and> j_end q - j_start q \<le> B
       \<and> batch_origins q = map (nth locations) [i_start q..<i_end q]
       \<and> batch_destinations q = map (nth locations) [j_start q..<j_end q]"
proof -
  obtain i j where i: "i \<in> set (py_range 0 (length locations) B)"
    and j: "j \<in> set (py_range 0 (length locations) B)"
    and qq: "q = make_sub_query locations B i j"
    using q by (auto simp: sub_queries_def)
  have "i < length locations" "j < length locations"
    using py_range_mem[OF B] i j by simp_all
  then show ?thesis
    using B by (auto simp: qq make_sub_query_def Let_def py_slice_nth)
qed

lemma concat_concat_map: "concat (concat xss) = concat (map concat xss)"
  by (induction xss) simp_all

lemma index_pairs_sub_queries:
  "concat (map index_pairs (sub_queries locations B))
     = concat (map (\<lambda>i. concat (map (\<lambda>j. List.product [i..<min (i + B) (length locations)]
                                                       [j..<min (j + B) (length locations)])
                                     (py_range 0 (length locations) B)))
                   (py_range 0 (length locations) B))"
  by (simp add: sub_queries_def map_concat comp_def index_pairs_def make_sub_query_def Let_def
        concat_concat_map)

lemma index_pairs_set:
  assumes "0 < B"
  shows "set (concat (map index_pairs (sub_queries locations B)))
           = {0..<length locations} \<times> {0..<length locations}"
proof -
  let ?n = "length locations"
  let ?R = "set (py_range 0 ?n B)"
  have "set (concat (map index_pairs (sub_queries locations B)))
          = (\<Union>i\<in>?R. \<Union>j\<in>?R. {i..<min (i + B) ?n} \<times> {j..<min (j + B) ?n})"
    unfolding index_pairs_sub_queries by simp
  also have "\<dots> = (\<Union>i\<in>?R. {i..<min (i + B) ?n}) \<times> (\<Union>j\<in>?R. {j..<min (j + B) ?n})"
    by blast
  also have "\<dots> = {0..<?n} \<times> {0..<?n}"
    unfolding chunks_cover[OF assms] ..
  finally show ?thesis .
qed

lemma index_pairs_distinct:
  assumes B: "0 < B"
  shows "distinct (concat (map index_pairs (sub_queries locations B)))"
  unfolding index_pairs_sub_queries
proof (rule distinct_concat_map)
  let ?n = "length locations"
  show "distinct (py_range 0 ?n B)" by (rule distinct_py_range[OF B])
next
  let ?n = "length locations"
  fix i assume i: "i \<in> set (py_range 0 ?n B)"
  show "distinct (concat (map (\<lambda>j. List.product [i..<min (i + B) ?n] [j..<min (j + B) ?n])
                            (py_range 0 ?n B)))"
  proof (rule distinct_concat_map)
    show "distinct (py_range 0 ?n B)" by (rule distinct_py_range[OF B])
  next
    fix j
    show "distinct (List.product [i..<min (i + B) ?n] [j..<min (j + B) ?n])"
      by (simp add: distinct_product)
  next
    fix j j' assume "j \<in> set (py_range 0 ?n B)" "j' \<in> set (py_range 0 ?n B)" "j \<noteq> j'"
    then have "{j..<j + B} \<inter> {j'..<j' + B} = {}" by (rule chunks_disjoint[OF B])
    then show "set (List.product [i..<min (i + B) ?n] [j..<min (j + B) ?n])
               \<inter> set (List.product [i..<min (i + B) ?n] [j'..<min (j' + B) ?n]) = {}"
      by auto
  qed
next
  let ?n = "length locations"
  fix i i' assume "i \<in> set (py_range 0 ?n B)" "i' \<in> set (py_range 0 ?n B)" "i \<noteq> i'"
  then have "{i..<i + B} \<inter> {i'..<i' + B} = {}" by (rule chunks_disjoint[OF B])
  then show "set (concat (map (\<lambda>j. List.product [i..<min (i + B) ?n] [j..<min (j + B) ?n])
                            (py_range 0 ?n B)))
             \<inter> set (concat (map (\<lambda>j. List.product [i'..<min (i' + B) ?n] [j..<min (j + B) ?n])
                            (py_range 0 ?n B))) = {}"
    by auto
qed

text \<open>
  C1. For a batch bound \<open>B \<ge> 1\<close> and \<open>N\<close> locations the loops issue \<open>\<lceil>N / B\<rceil> * \<lceil>N / B\<rceil>\<close>
  sub-queries: the chunks \<open>[k * B, min (k * B + B) N)\<close> of \<open>[0, N)\<close> crossed with themselves,
  origin chunks outermost. Each batch is the slice of the locations at its chunk, which is
  not empty and not longer than \<open>B\<close>. The index pairs of all the sub-queries, taken together,
  contain no pair twice and are exactly the pairs of \<open>[0, N) \<times> [0, N)\<close>. Without locations
  there is no sub-query.
\<close>

theorem partition_grid:
  assumes "1 \<le> B"
  shows "length (sub_queries locations B)
           = ceil_div (length locations) B * ceil_div (length locations) B
       \<and> map bounds (sub_queries locations B)
           = List.product (chunk_bounds (length locations) B) (chunk_bounds (length locations) B)
       \<and> (\<forall>q \<in> set (sub_queries locations B).
             i_start q < i_end q \<and> i_end q \<le> length locations \<and> i_end q - i_start q \<le> B
             \<and> j_start q < j_end q \<and> j_end q \<le> length locations \<and> j_end q - j_start q \<le> B
             \<and> batch_origins q = map (nth locations) [i_start q..<i_end q]
             \<and> batch_destinations q = map (nth locations) [j_start q..<j_end q])
       \<and> distinct (concat (map index_pairs (sub_queries locations B)))
       \<and> set (concat (map index_pairs (sub_queries locations B)))
           = {0..<length locations} \<times> {0..<length locations}
       \<and> (length locations = 0 \<longrightarrow> sub_queries locations B = [])"
proof -
  have B: "0 < B" using assms by simp
  show ?thesis
    using length_sub_queries[OF B, of locations] bounds_sub_queries[OF B, of locations]
      sub_query_chunks[OF B, of _ locations] index_pairs_distinct[OF B, of locations]
      index_pairs_set[OF B, of locations] sub_queries_0[of B]
    by auto
qed

theorem partition_grid_witness:
  "(1 :: nat) \<le> 10
   \<and> length (sub_queries (sample_locations 16) 10) = 4
   \<and> map bounds (sub_queries (sample_locations 16) 10)
       = [((0, 10), (0, 10)), ((0, 10), (10, 16)), ((10, 16), (0, 10)), ((10, 16), (10, 16))]
   \<and> distinct (concat (map index_pairs (sub_queries (sample_locations 16) 10)))
   \<and> set (concat (map index_pairs (sub_queries (sample_locations 16) 10))) = {0..<16} \<times> {0..<16}"
proof -
  have h: "(1 :: nat) \<le> 10" by simp
  have len: "length (sample_locations 16) = 16" by (simp add: sample_locations_def)
  have c: "ceil_div 16 10 = 2" by (simp add: ceil_div_def)
  have cb: "chunk_bounds 16 10 = [(0, 10), (10, 16)]"
    by (simp add: chunk_bounds_def c upt_rec)
  show ?thesis
    using h partition_grid[OF h, of "sample_locations 16"]
    by (simp add: len c cb)
qed

section \<open>Runs in which every answer is complete\<close>











lemma cache_key_inject:
  assumes "CHR ''_'' \<notin> set a" "CHR ''_'' \<notin> set c" "a @ CHR ''_'' # b = c @ CHR ''_'' # d"
  shows "a = c \<and> b = d"
  using assms
proof (induction a arbitrary: c)
  case Nil
  then show ?case by (cases c) auto
next
  case (Cons x a)
  then show ?case by (cases c) auto
qed

lemma expected_keys_distinct:
  assumes ids: "distinct (map loc_id locations)"
      and us: "\<forall>l \<in> set locations. CHR ''_'' \<notin> set (loc_id l)"
  shows "distinct (expected_keys locations)"
proof -
  have dl: "distinct locations" and inj: "inj_on loc_id (set locations)"
    using ids by (simp_all add: distinct_map)
  have "inj_on (\<lambda>(a, b). cache_key a b) (set locations \<times> set locations)"
  proof (rule inj_onI, clarify)
    fix a b c d
    assume m: "a \<in> set locations" "b \<in> set locations" "c \<in> set locations" "d \<in> set locations"
      and eq: "cache_key a b = cache_key c d"
    have "loc_id a = loc_id c \<and> loc_id b = loc_id d"
      by (rule cache_key_inject) (use us m eq in \<open>simp_all add: cache_key_def\<close>)
    then show "a = c \<and> b = d" using inj m by (auto dest: inj_onD)
  qed
  then have "inj_on (\<lambda>(a, b). cache_key a b)
               (set (filter (\<lambda>(a, b). loc_id a \<noteq> loc_id b) (List.product locations locations)))"
    by (rule inj_on_subset) auto
  then show ?thesis
    using dl by (simp add: expected_keys_def distinct_map distinct_product)
qed




end
